theory Spec2Isabelle
  imports Main
begin

section \<open>Go strings and the functions of package strings used by gogit.go\<close>

text \<open>
  A Go string (and a byte slice) is a sequence of bytes: \<^typ>\<open>string\<close>, a list of 8-bit
  characters. The functions below follow the Go standard library on the arguments that
  gogit.go passes to them.
\<close>

definition HasPrefix :: "string \<Rightarrow> string \<Rightarrow> bool" where
  "HasPrefix s p = (take (length p) s = p)"

text \<open>
  \<open>strings.Index(s, substr)\<close>: the index of the first instance of \<open>substr\<close> in \<open>s\<close>;
  Go's \<open>-1\<close> is \<open>None\<close>.
\<close>

fun strings_Index :: "string \<Rightarrow> string \<Rightarrow> nat option" where
  "strings_Index [] substr = (if substr = [] then Some 0 else None)"
| "strings_Index (c # cs) substr =
     (if HasPrefix (c # cs) substr then Some 0
      else map_option Suc (strings_Index cs substr))"

text \<open>\<open>bytes.Contains(b, subslice)\<close> is \<open>Index(b, subslice) != -1\<close>.\<close>

definition bytes_Contains :: "string \<Rightarrow> string \<Rightarrow> bool" where
  "bytes_Contains b subslice = (strings_Index b subslice \<noteq> None)"

text \<open>
  \<open>strings.Count(s, substr)\<close> for a non-empty \<open>substr\<close>: the number of non-overlapping
  instances, found from the left. The loop of the library
  (\<open>i := Index(s, substr); if i == -1 return n; n++; s = s[i+len(substr):]\<close>) runs at most
  \<open>len(s)\<close> times, which is the fuel of \<open>countLoop\<close>.
\<close>

fun countLoop :: "nat \<Rightarrow> string \<Rightarrow> string \<Rightarrow> nat" where
  "countLoop 0 s substr = 0"
| "countLoop (Suc k) s substr =
     (case strings_Index s substr of
        None \<Rightarrow> 0
      | Some i \<Rightarrow> Suc (countLoop k (drop (i + length substr) s) substr))"

definition strings_Count :: "string \<Rightarrow> string \<Rightarrow> nat" where
  "strings_Count s substr = countLoop (length s) s substr"

text \<open>
  \<open>strings.Split(s, sep)\<close> is \<open>genSplit(s, sep, 0, -1)\<close>: with \<open>n = Count(s, sep) + 1\<close>
  slots, the loop cuts \<open>s\<close> at the first instance of \<open>sep\<close> while fewer than \<open>n - 1\<close> pieces
  are stored and \<open>Index\<close> finds one, and the rest of \<open>s\<close> is the last piece.
  gogit.go only splits on the literals \<open>".git"\<close> and \<open>"/"\<close>. For an empty separator Go
  splits after each UTF-8 sequence; here each byte is taken as one sequence, which is
  what Go does on ASCII text.
\<close>

fun genSplitLoop :: "nat \<Rightarrow> string \<Rightarrow> string \<Rightarrow> string list" where
  "genSplitLoop 0 s sep = [s]"
| "genSplitLoop (Suc k) s sep =
     (case strings_Index s sep of
        None \<Rightarrow> [s]
      | Some m \<Rightarrow> take m s # genSplitLoop k (drop (m + length sep) s) sep)"

definition strings_Split :: "string \<Rightarrow> string \<Rightarrow> string list" where
  "strings_Split s sep =
     (if sep = [] then map (\<lambda>c. [c]) s
      else genSplitLoop (strings_Count s sep) s sep)"

text \<open>
  \<open>strings.TrimSpace(s)\<close> removes all leading and trailing white space, as defined by
  Unicode, from the UTF-8 text \<open>s\<close>. A leading (trailing) rune is white space exactly when
  \<open>s\<close> begins (ends) with the UTF-8 encoding of a code point with the property
  White_Space; a byte that does not decode is U+FFFD, which is not white space, so
  trimming stops there. \<open>spaceEncodings\<close> lists these encodings: U+0009..U+000D, U+0020,
  U+0085, U+00A0, U+1680, U+2000..U+200A, U+2028, U+2029, U+202F, U+205F, U+3000.
\<close>

definition spaceEncodings :: "string list" where
  "spaceEncodings =
     [[CHR 0x09], [CHR 0x0A], [CHR 0x0B], [CHR 0x0C], [CHR 0x0D], [CHR 0x20],
      [CHR 0xC2, CHR 0x85], [CHR 0xC2, CHR 0xA0],
      [CHR 0xE1, CHR 0x9A, CHR 0x80],
      [CHR 0xE2, CHR 0x80, CHR 0x80], [CHR 0xE2, CHR 0x80, CHR 0x81],
      [CHR 0xE2, CHR 0x80, CHR 0x82], [CHR 0xE2, CHR 0x80, CHR 0x83],
      [CHR 0xE2, CHR 0x80, CHR 0x84], [CHR 0xE2, CHR 0x80, CHR 0x85],
      [CHR 0xE2, CHR 0x80, CHR 0x86], [CHR 0xE2, CHR 0x80, CHR 0x87],
      [CHR 0xE2, CHR 0x80, CHR 0x88], [CHR 0xE2, CHR 0x80, CHR 0x89],
      [CHR 0xE2, CHR 0x80, CHR 0x8A],
      [CHR 0xE2, CHR 0x80, CHR 0xA8], [CHR 0xE2, CHR 0x80, CHR 0xA9],
      [CHR 0xE2, CHR 0x80, CHR 0xAF],
      [CHR 0xE2, CHR 0x81, CHR 0x9F],
      [CHR 0xE3, CHR 0x80, CHR 0x80]]"

text \<open>
  \<open>trimLeftOf encs n s\<close> drops from the front of \<open>s\<close>, repeatedly, an element of \<open>encs\<close>;
  each round drops at least one byte, so \<open>n = len(s)\<close> rounds are enough.
\<close>

fun trimLeftOf :: "string list \<Rightarrow> nat \<Rightarrow> string \<Rightarrow> string" where
  "trimLeftOf encs 0 s = s"
| "trimLeftOf encs (Suc n) s =
     (case find (\<lambda>e. e \<noteq> [] \<and> HasPrefix s e) encs of
        None \<Rightarrow> s
      | Some e \<Rightarrow> trimLeftOf encs n (drop (length e) s))"

definition TrimLeftSpace :: "string \<Rightarrow> string" where
  "TrimLeftSpace s = trimLeftOf spaceEncodings (length s) s"

definition TrimRightSpace :: "string \<Rightarrow> string" where
  "TrimRightSpace s = rev (trimLeftOf (map rev spaceEncodings) (length s) (rev s))"

definition strings_TrimSpace :: "string \<Rightarrow> string" where
  "strings_TrimSpace s = TrimRightSpace (TrimLeftSpace s)"

section \<open>Run-time panics\<close>

text \<open>
  A Go function either returns or panics; \<open>Panicked\<close> carries the run-time error.
  Indexing a slice outside \<open>0 \<le> i < len(a)\<close> and using a nil pointer both panic.
\<close>

datatype panic = IndexOutOfRange | NilDereference

datatype 'a outcome = Returned 'a | Panicked panic

definition index :: "'a list \<Rightarrow> int \<Rightarrow> 'a outcome" where
  "index a i =
     (if 0 \<le> i \<and> i < int (length a) then Returned (a ! nat i)
      else Panicked IndexOutOfRange)"

section \<open>ParseRepoFolder\<close>

text \<open>
  \<^verbatim>\<open>
  func ParseRepoFolder(repo string) (folder string) {
      firstPart := strings.Split(repo, ".git")[0]
      firstPartSplit := strings.Split(firstPart, "/")
      folder = strings.TrimSpace(firstPartSplit[len(firstPartSplit)-1])
      return
  }
  \<close>
\<close>

definition ParseRepoFolder :: "string \<Rightarrow> string outcome" where
  "ParseRepoFolder repo =
     (case index (strings_Split repo ''.git'') 0 of
        Panicked p \<Rightarrow> Panicked p
      | Returned firstPart \<Rightarrow>
          (let firstPartSplit = strings_Split firstPart ''/'' in
           case index firstPartSplit (int (length firstPartSplit) - 1) of
             Panicked p \<Rightarrow> Panicked p
           | Returned seg \<Rightarrow> Returned (strings_TrimSpace seg)))"

text \<open>
  The folder name in the words of the specification: the part of the URL before the
  first \<open>".git"\<close> (all of it when there is none), of that the segment after the last
  \<open>"/"\<close> (all of it when there is none), with the white space around it taken away.
  White space is said without the library: a text is blank when it is made of
  white-space characters only, each of them one, two or three bytes long in UTF-8, and
  trimming takes away the longest blank beginning of a text and then the longest blank
  end of what is left.
\<close>

fun beforeFirst :: "string \<Rightarrow> string \<Rightarrow> string" where
  "beforeFirst marker [] = []"
| "beforeFirst marker (c # cs) =
     (if HasPrefix (c # cs) marker then [] else c # beforeFirst marker cs)"

definition lastSegment :: "string \<Rightarrow> string" where
  "lastSegment s = rev (takeWhile (\<lambda>c. c \<noteq> CHR ''/'') (rev s))"

fun blank :: "string \<Rightarrow> bool" where
  "blank [] = True"
| "blank [a] = ([a] \<in> set spaceEncodings)"
| "blank [a, b] = ([a, b] \<in> set spaceEncodings \<or> [a] \<in> set spaceEncodings \<and> blank [b])"
| "blank (a # b # c # s) =
     ([a] \<in> set spaceEncodings \<and> blank (b # c # s)
      \<or> [a, b] \<in> set spaceEncodings \<and> blank (c # s)
      \<or> [a, b, c] \<in> set spaceEncodings \<and> blank s)"

text \<open>
  \<open>leadingBlank n s\<close> is the length of the longest blank beginning of \<open>s\<close> that is at
  most \<open>n\<close> long, \<open>trailingBlank n s\<close> that of the longest such end.
\<close>

fun leadingBlank :: "nat \<Rightarrow> string \<Rightarrow> nat" where
  "leadingBlank 0 s = 0"
| "leadingBlank (Suc n) s = (if blank (take (Suc n) s) then Suc n else leadingBlank n s)"

fun trailingBlank :: "nat \<Rightarrow> string \<Rightarrow> nat" where
  "trailingBlank 0 s = 0"
| "trailingBlank (Suc n) s =
     (if blank (drop (length s - Suc n) s) then Suc n else trailingBlank n s)"

definition trimWhitespace :: "string \<Rightarrow> string" where
  "trimWhitespace s =
     (let t = drop (leadingBlank (length s) s) s
      in take (length t - trailingBlank (length t) t) t)"

definition deriveRepoFolder :: "string \<Rightarrow> string" where
  "deriveRepoFolder remoteURL = trimWhitespace (lastSegment (beforeFirst ''.git'' remoteURL))"

section \<open>Errors\<close>

text \<open>
  The error values that reach the callers of this package: \<open>errors.New(text)\<close>, the
  errors of package os (a system call failed on a path), and what
  \<open>exec.Cmd.CombinedOutput\<close> returns when the subprocess could not be started
  (\<open>*exec.Error\<close>) or ended with a non-zero exit status (\<open>*exec.ExitError\<close>).
  A nil error is \<open>None\<close>.
\<close>

datatype errno = ENOENT | ENOTDIR | EISDIR | EACCES | EEXIST

datatype error =
    ErrorString string
  | PathError string string errno
  | SyscallError string errno
  | ExecError string
  | ExitError int

section \<open>The process environment: working directory, files, subprocesses\<close>

text \<open>
  The file system is a map from absolute paths (lists of names below the root) to
  nodes; the root is always a directory, and an entry is in the tree when all the
  entries above it are directories. File modes, symbolic links and users are not
  tracked; \<open>denied p\<close> says that this process may not create or write the entry \<open>p\<close>
  (no permission, read-only file system). The process has one current working
  directory. Every subprocess started is recorded with its arguments, the directory it
  ran in, the files it found, and what it gave back: the combined output and the error
  of the invocation.
\<close>

datatype node = Dir | File string

type_synonym path = "string list"

type_synonym fsys = "path \<Rightarrow> node option"

record call =
  argv :: "string list"
  wd :: path
  files :: fsys
  combined :: string
  failure :: "error option"

record world =
  cwd :: path
  fs :: fsys
  denied :: "path \<Rightarrow> bool"
  invoked :: "call list"

definition IsAbs :: "string \<Rightarrow> bool" where
  "IsAbs p = HasPrefix p ''/''"

text \<open>The names of a path name, cut at the slashes; \<open>render\<close> prints a path.\<close>

fun segments :: "string \<Rightarrow> string list" where
  "segments [] = [[]]"
| "segments (c # cs) =
     (if c = CHR ''/'' then [] # segments cs
      else (case segments cs of [] \<Rightarrow> [[c]] | x # xs \<Rightarrow> (c # x) # xs))"

definition render :: "path \<Rightarrow> string" where
  "render p = (if p = [] then ''/'' else concat (map (\<lambda>name. CHR ''/'' # name) p))"

definition node_at :: "fsys \<Rightarrow> path \<Rightarrow> node option" where
  "node_at f p = (if p = [] then Some Dir else f p)"

text \<open>
  \<open>walk f pre names\<close> goes from the directory \<open>pre\<close> down \<open>names\<close>: a missing name is
  \<open>ENOENT\<close>, a file on the way is \<open>ENOTDIR\<close>. \<open>walk f [] p\<close> is the node at the path
  \<open>p\<close> of the tree.
\<close>

fun walk :: "fsys \<Rightarrow> path \<Rightarrow> string list \<Rightarrow> errno + node" where
  "walk f pre [] = (case node_at f pre of None \<Rightarrow> Inl ENOENT | Some n \<Rightarrow> Inr n)"
| "walk f pre (name # names) =
     (case node_at f pre of
        None \<Rightarrow> Inl ENOENT
      | Some (File content) \<Rightarrow> Inl ENOTDIR
      | Some Dir \<Rightarrow> walk f (pre @ [name]) names)"

definition isDir :: "fsys \<Rightarrow> path \<Rightarrow> bool" where
  "isDir f p = (walk f [] p = Inr Dir)"

text \<open>
  The kernel looks a path name up one name at a time, from the root (a rooted name) or
  from the working directory. Where it stands must be a directory of the tree before
  it takes the next name, also when that name is \<open>".."\<close>: a name that is missing is
  \<open>ENOENT\<close> and a file that is not the last name is \<open>ENOTDIR\<close>, whatever follows.
  From a directory, the empty name and \<open>"."\<close> stay, \<open>".."\<close> goes up (and stays at the
  root), any other name goes down. \<open>namei\<close> returns the path reached and the node
  there. The empty path name is \<open>ENOENT\<close>.
\<close>

definition enter :: "path \<Rightarrow> string \<Rightarrow> path" where
  "enter p name =
     (if name = [] \<or> name = ''.'' then p
      else if name = ''..'' then butlast p
      else p @ [name])"

fun namei :: "fsys \<Rightarrow> path \<Rightarrow> string list \<Rightarrow> errno + path \<times> node" where
  "namei f cur [] = (case walk f [] cur of Inl e \<Rightarrow> Inl e | Inr n \<Rightarrow> Inr (cur, n))"
| "namei f cur (name # names) =
     (case walk f [] cur of
        Inl e \<Rightarrow> Inl e
      | Inr (File content) \<Rightarrow> Inl ENOTDIR
      | Inr Dir \<Rightarrow> namei f (enter cur name) names)"

definition lookup :: "fsys \<Rightarrow> path \<Rightarrow> string \<Rightarrow> errno + path \<times> node" where
  "lookup f c name =
     (if name = [] then Inl ENOENT
      else namei f (if IsAbs name then [] else c) (segments name))"

definition stat :: "fsys \<Rightarrow> path \<Rightarrow> string \<Rightarrow> errno + node" where
  "stat f c name = (case lookup f c name of Inl e \<Rightarrow> Inl e | Inr (p, n) \<Rightarrow> Inr n)"

text \<open>
  A call that makes an entry (\<open>mkdir\<close>, \<open>open\<close> with \<open>O_CREAT\<close>) looks up all names
  but the last, which must lead to a directory, and then deals with the last name;
  slashes at the end of the path name are not part of the last name.
\<close>

definition components :: "string \<Rightarrow> string list" where
  "components name = rev (dropWhile (\<lambda>n. n = []) (rev (segments name)))"

definition lookupParent :: "fsys \<Rightarrow> path \<Rightarrow> string \<Rightarrow> errno + path" where
  "lookupParent f c name =
     (if name = [] then Inl ENOENT
      else case namei f (if IsAbs name then [] else c) (butlast (components name)) of
             Inl e \<Rightarrow> Inl e
           | Inr (p, File content) \<Rightarrow> Inl ENOTDIR
           | Inr (p, Dir) \<Rightarrow> Inr p)"

text \<open>
  \<open>os.Stat(name)\<close>, \<open>os.Lstat(name)\<close> (the same, there being no symbolic links),
  \<open>os.IsNotExist(err)\<close>, \<open>os.Getwd()\<close>, \<open>os.Chdir(dir)\<close>.
\<close>

definition os_Stat :: "world \<Rightarrow> string \<Rightarrow> error + node" where
  "os_Stat w name =
     (case stat (fs w) (cwd w) name of
        Inl e \<Rightarrow> Inl (PathError ''stat'' name e)
      | Inr n \<Rightarrow> Inr n)"

definition os_Lstat :: "world \<Rightarrow> string \<Rightarrow> error + node" where
  "os_Lstat w name =
     (case stat (fs w) (cwd w) name of
        Inl e \<Rightarrow> Inl (PathError ''lstat'' name e)
      | Inr n \<Rightarrow> Inr n)"

fun os_IsNotExist :: "error \<Rightarrow> bool" where
  "os_IsNotExist (PathError op name e) = (e = ENOENT)"
| "os_IsNotExist (SyscallError op e) = (e = ENOENT)"
| "os_IsNotExist err = False"

definition os_Getwd :: "world \<Rightarrow> error + string" where
  "os_Getwd w =
     (if isDir (fs w) (cwd w) then Inr (render (cwd w))
      else Inl (SyscallError ''getwd'' ENOENT))"

definition os_Chdir :: "string \<Rightarrow> world \<Rightarrow> error option \<times> world" where
  "os_Chdir dir w =
     (case lookup (fs w) (cwd w) dir of
        Inl e \<Rightarrow> (Some (PathError ''chdir'' dir e), w)
      | Inr (p, File content) \<Rightarrow> (Some (PathError ''chdir'' dir ENOTDIR), w)
      | Inr (p, Dir) \<Rightarrow> (None, w\<lparr>cwd := p\<rparr>))"

text \<open>
  \<open>os.Mkdir(name, perm)\<close> makes one directory: the last name must not be there yet
  (\<open>EEXIST\<close>; also when it is \<open>"."\<close> or \<open>".."\<close>, or when the path name is the root),
  and the entry must not be denied.
\<close>

definition os_Mkdir :: "string \<Rightarrow> nat \<Rightarrow> world \<Rightarrow> error option \<times> world" where
  "os_Mkdir name perm w =
     (case lookupParent (fs w) (cwd w) name of
        Inl e \<Rightarrow> (Some (PathError ''mkdir'' name e), w)
      | Inr p \<Rightarrow>
          (if components name = [] \<or> last (components name) = ''.''
              \<or> last (components name) = ''..''
           then (Some (PathError ''mkdir'' name EEXIST), w)
           else if fs w (p @ [last (components name)]) \<noteq> None
           then (Some (PathError ''mkdir'' name EEXIST), w)
           else if denied w (p @ [last (components name)])
           then (Some (PathError ''mkdir'' name EACCES), w)
           else (None, w\<lparr>fs := (fs w)(p @ [last (components name)] \<mapsto> Dir)\<rparr>)))"

text \<open>
  \<open>os.MkdirAll(path, perm)\<close>, as in package os:

  \<^verbatim>\<open>
  func MkdirAll(path string, perm FileMode) error {
      dir, err := Stat(path)
      if err == nil {
          if dir.IsDir() { return nil }
          return &PathError{"mkdir", path, syscall.ENOTDIR}
      }
      i := len(path)
      for i > 0 && IsPathSeparator(path[i-1]) { i-- }   // Skip trailing path separator.
      j := i
      for j > 0 && !IsPathSeparator(path[j-1]) { j-- }  // Scan backward over element.
      if j > 1 {
          err = MkdirAll(path[0:j-1], perm)             // Create parent.
          if err != nil { return err }
      }
      err = Mkdir(path, perm)
      if err != nil {
          dir, err1 := Lstat(path)
          if err1 == nil && dir.IsDir() { return nil }
          return err
      }
      return nil
  }
  \<close>

  \<open>skipSeparators path n\<close> and \<open>skipElement path n\<close> are the two loops, started at
  \<open>n\<close>. The parent is a shorter path name, so the recursion ends.
\<close>

fun skipSeparators :: "string \<Rightarrow> nat \<Rightarrow> nat" where
  "skipSeparators path 0 = 0"
| "skipSeparators path (Suc i) =
     (if path ! i = CHR ''/'' then skipSeparators path i else Suc i)"

fun skipElement :: "string \<Rightarrow> nat \<Rightarrow> nat" where
  "skipElement path 0 = 0"
| "skipElement path (Suc j) =
     (if path ! j \<noteq> CHR ''/'' then skipElement path j else Suc j)"

function os_MkdirAll :: "string \<Rightarrow> nat \<Rightarrow> world \<Rightarrow> error option \<times> world" where
  "os_MkdirAll path perm w =
     (case os_Stat w path of
        Inr Dir \<Rightarrow> (None, w)
      | Inr (File content) \<Rightarrow> (Some (PathError ''mkdir'' path ENOTDIR), w)
      | Inl err \<Rightarrow>
          (case (if 1 < skipElement path (skipSeparators path (length path))
                 then os_MkdirAll
                        (take (skipElement path (skipSeparators path (length path)) - 1) path)
                        perm w
                 else (None, w)) of
             (Some err, w1) \<Rightarrow> (Some err, w1)
           | (None, w1) \<Rightarrow>
               (case os_Mkdir path perm w1 of
                  (None, w2) \<Rightarrow> (None, w2)
                | (Some err, w2) \<Rightarrow>
                    (case os_Lstat w2 path of
                       Inr Dir \<Rightarrow> (None, w2)
                     | Inr (File content) \<Rightarrow> (Some err, w2)
                     | Inl err1 \<Rightarrow> (Some err, w2)))))"
  by pat_completeness auto
termination
proof (relation "measure (\<lambda>(path, perm, w). length path)")
  show "wf (measure (\<lambda>(path, perm, w). length path))" by simp
next
  fix path :: string and perm :: nat and w :: world and err :: error
  assume "1 < skipElement path (skipSeparators path (length path))"
  moreover have a: "skipSeparators path n \<le> n" for n
    by (induction n) auto
  moreover have b: "skipElement path n \<le> n" for n
    by (induction n) auto
  ultimately have "skipElement path (skipSeparators path (length path)) - 1 < length path"
    using a [of "length path"] b [of "skipSeparators path (length path)"] by linarith
  then show "((take (skipElement path (skipSeparators path (length path)) - 1) path, perm, w),
              path, perm, w) \<in> measure (\<lambda>(path, perm, w). length path)"
    by simp
qed

text \<open>
  \<open>ioutil.WriteFile(filename, data, perm)\<close> opens the file for writing, creating it or
  truncating it, and writes \<open>data\<close>. The open fails with \<open>EISDIR\<close> when the last name
  is a directory, is \<open>"."\<close> or \<open>".."\<close>, or is followed by a slash, and with \<open>EACCES\<close>
  when the entry is denied.
\<close>

definition ioutil_WriteFile :: "string \<Rightarrow> string \<Rightarrow> nat \<Rightarrow> world \<Rightarrow> error option \<times> world" where
  "ioutil_WriteFile filename data perm w =
     (case lookupParent (fs w) (cwd w) filename of
        Inl e \<Rightarrow> (Some (PathError ''open'' filename e), w)
      | Inr p \<Rightarrow>
          (if components filename = [] \<or> last (components filename) = ''.''
              \<or> last (components filename) = ''..''
              \<or> components filename \<noteq> segments filename
           then (Some (PathError ''open'' filename EISDIR), w)
           else case fs w (p @ [last (components filename)]) of
                  Some Dir \<Rightarrow> (Some (PathError ''open'' filename EISDIR), w)
                | Some (File content) \<Rightarrow>
                    (if denied w (p @ [last (components filename)])
                     then (Some (PathError ''open'' filename EACCES), w)
                     else (None, w\<lparr>fs := (fs w)(p @ [last (components filename)] \<mapsto> File data)\<rparr>))
                | None \<Rightarrow>
                    (if denied w (p @ [last (components filename)])
                     then (Some (PathError ''open'' filename EACCES), w)
                     else (None, w\<lparr>fs := (fs w)(p @ [last (components filename)] \<mapsto> File data)\<rparr>))))"

text \<open>
  The subprocess is a parameter: given the arguments, the directory it runs in and the
  files, it yields the combined output, the error of the invocation, and the files it
  leaves. A subprocess cannot change the working directory of this process.
  \<open>exec.Command(name, arg...).CombinedOutput()\<close> runs it and records the invocation.
\<close>

type_synonym runner = "string list \<Rightarrow> path \<Rightarrow> fsys \<Rightarrow> (string \<times> error option) \<times> fsys"

definition CombinedOutput ::
  "runner \<Rightarrow> string list \<Rightarrow> world \<Rightarrow> (string \<times> error option) \<times> world" where
  "CombinedOutput run args w =
     (case run args (cwd w) (fs w) of
        ((out, err), f) \<Rightarrow>
          ((out, err),
           w\<lparr>fs := f,
             invoked := invoked w @
               [\<lparr>argv = args, wd = cwd w, files = fs w, combined = out, failure = err\<rparr>]\<rparr>))"

section \<open>Packages path and path/filepath\<close>

definition strings_Join :: "string list \<Rightarrow> string \<Rightarrow> string" where
  "strings_Join elems sep =
     (case elems of [] \<Rightarrow> [] | e # es \<Rightarrow> e @ concat (map (\<lambda>x. sep @ x) es))"

text \<open>
  \<open>path.Clean\<close>: one slash between names, no \<open>"."\<close> name, no inner \<open>".."\<close> with the name
  before it, no \<open>".."\<close> at the root; the empty result is \<open>"."\<close>.
\<close>

definition cleanElem :: "bool \<Rightarrow> string list \<Rightarrow> string \<Rightarrow> string list" where
  "cleanElem rooted out name =
     (if name = [] \<or> name = ''.'' then out
      else if name = ''..'' then
        (case out of
           [] \<Rightarrow> (if rooted then [] else [''..''])
         | x # rest \<Rightarrow> (if x = ''..'' then ''..'' # out else rest))
      else name # out)"

definition path_Clean :: "string \<Rightarrow> string" where
  "path_Clean p =
     (if p = [] then ''.''
      else let s = strings_Join (rev (foldl (cleanElem (IsAbs p)) [] (strings_Split p ''/''))) ''/''
           in if IsAbs p then CHR ''/'' # s else if s = [] then ''.'' else s)"

definition path_Join :: "string list \<Rightarrow> string" where
  "path_Join elem =
     (let es = filter (\<lambda>e. e \<noteq> []) elem
      in if es = [] then [] else path_Clean (strings_Join es ''/''))"

text \<open>
  \<open>filepath.Split(path)\<close> cuts after the final slash, \<open>dir + file = path\<close>:

  \<^verbatim>\<open>
  i := len(path) - 1
  for i >= 0 && !os.IsPathSeparator(path[i]) { i-- }
  return path[:i+1], path[i+1:]
  \<close>

  The loop is \<open>skipElement\<close>, which counts \<open>i + 1\<close>.
\<close>

definition filepath_Split :: "string \<Rightarrow> string \<times> string" where
  "filepath_Split p =
     (take (skipElement p (length p)) p, drop (skipElement p (length p)) p)"

text \<open>\<open>filepath.Abs(path)\<close>; on error the path returned is empty.\<close>

definition filepath_Abs :: "world \<Rightarrow> string \<Rightarrow> string \<times> error option" where
  "filepath_Abs w p =
     (if IsAbs p then (path_Clean p, None)
      else case os_Getwd w of
             Inl err \<Rightarrow> ([], Some err)
           | Inr wd0 \<Rightarrow> (path_Join [wd0, p], None))"

section \<open>Package logrus, as far as gogit.go uses it\<close>

text \<open>
  A logger has a level; an entry is a logger with fields attached. The entry of a
  handle logs through the logger of the same handle. What is written to the log stream
  is not part of the model; calling a method of a nil logger or of a nil entry is a
  nil-pointer dereference.
\<close>

datatype Level = WarnLevel | InfoLevel

record Logger =
  Level :: Level

record Entry =
  Data :: "(string \<times> string) list"

definition logrus_New :: Logger where
  "logrus_New = \<lparr>Level = InfoLevel\<rparr>"

definition SetLevel :: "Logger option \<Rightarrow> Level \<Rightarrow> Logger option outcome" where
  "SetLevel lg lvl =
     (case lg of
        None \<Rightarrow> Panicked NilDereference
      | Some l \<Rightarrow> Returned (Some (l\<lparr>Level := lvl\<rparr>)))"

definition WithFields :: "Logger option \<Rightarrow> (string \<times> string) list \<Rightarrow> Entry option outcome" where
  "WithFields lg kvs =
     (case lg of
        None \<Rightarrow> Panicked NilDereference
      | Some l \<Rightarrow> Returned (Some \<lparr>Data = kvs\<rparr>))"

definition Info :: "Entry option \<Rightarrow> unit outcome" where
  "Info entry =
     (case entry of
        None \<Rightarrow> Panicked NilDereference
      | Some e \<Rightarrow> Returned ())"

section \<open>The repository handle\<close>

record GitRepo =
  repo :: string
  folder :: string
  logger :: "Logger option"
  log :: "Entry option"

text \<open>
  \<^verbatim>\<open>
  func exists(path string) bool {
      _, err := os.Stat(path)
      if err == nil { return true }
      if os.IsNotExist(err) { return false }
      return true
  }
  \<close>
\<close>

definition exists :: "world \<Rightarrow> string \<Rightarrow> bool" where
  "exists w p =
     (case os_Stat w p of
        Inr info \<Rightarrow> True
      | Inl err \<Rightarrow> (if os_IsNotExist err then False else True))"

text \<open>
  \<open>New(repo, optionalFolder...)\<close> returns the handle and the error. The handle is built
  step by step, and the steps that fail return it as it is then. The modes \<open>0775\<close> and
  \<open>0755\<close> of the source are the numbers 509 and 493.
\<close>

definition New ::
  "string \<Rightarrow> string list \<Rightarrow> world \<Rightarrow> (GitRepo \<times> error option) outcome \<times> world" where
  "New repoURL optionalFolder w =
     (let gr = \<lparr>repo = repoURL, folder = [], logger = None, log = None\<rparr> in
      case (if length optionalFolder > 0 then index optionalFolder 0
            else ParseRepoFolder repoURL) of
        Panicked p \<Rightarrow> (Panicked p, w)
      | Returned name \<Rightarrow>
          (case filepath_Abs w name of
             (absolute, Some err) \<Rightarrow> (Returned (gr\<lparr>folder := absolute\<rparr>, Some err), w)
           | (absolute, None) \<Rightarrow>
               (case (if \<not> exists w absolute then os_MkdirAll absolute 509 w else (None, w)) of
                  (Some err, w1) \<Rightarrow> (Returned (gr\<lparr>folder := absolute\<rparr>, Some err), w1)
                | (None, w1) \<Rightarrow>
                    (case WithFields (Some logrus_New) [(''source'', ''gogit'')] of
                       Panicked p \<Rightarrow> (Panicked p, w1)
                     | Returned entry \<Rightarrow>
                         (case SetLevel (Some logrus_New) WarnLevel of
                            Panicked p \<Rightarrow> (Panicked p, w1)
                          | Returned lg \<Rightarrow>
                              (Returned (gr\<lparr>folder := absolute, logger := lg, log := entry\<rparr>,
                                 None), w1))))))"

text \<open>
  \<^verbatim>\<open>
  func (gr *GitRepo) Debug(on bool) {
      if on { gr.logger.SetLevel(logrus.InfoLevel) }
      else  { gr.logger.SetLevel(logrus.WarnLevel) }
  }
  \<close>
\<close>

definition Debug :: "bool \<Rightarrow> GitRepo \<Rightarrow> GitRepo outcome" where
  "Debug on gr =
     (case (if on then SetLevel (logger gr) InfoLevel else SetLevel (logger gr) WarnLevel) of
        Panicked p \<Rightarrow> Panicked p
      | Returned lg \<Rightarrow> Returned (gr\<lparr>logger := lg\<rparr>))"

text \<open>
  \<open>defer os.Chdir(cwd)\<close>: the call runs when the function returns and when it panics,
  and its own result is dropped.
\<close>

definition deferred_Chdir :: "string \<Rightarrow> 'a \<times> world \<Rightarrow> 'a \<times> world" where
  "deferred_Chdir dir r = (fst r, snd (os_Chdir dir (snd r)))"

text \<open>
  \<open>Update\<close>: clone or pull. The named result \<open>err\<close> is assigned by \<open>os.Getwd\<close>,
  \<open>os.Chdir\<close> and \<open>cmd.CombinedOutput\<close> in turn, replaced when the output contains
  \<open>"fatal"\<close>, and returned by the final \<open>return\<close>. Each branch logs, builds the
  command and sets \<open>pullOrClone\<close>. In this function and in the next two, the first
  logging call comes before the first subprocess is started; once it has not panicked,
  the later ones on the same entry do not either, and they are left out.
\<close>

definition Update :: "runner \<Rightarrow> GitRepo \<Rightarrow> world \<Rightarrow> error option outcome \<times> world" where
  "Update run gr w =
     (case os_Getwd w of
        Inl err \<Rightarrow> (Returned (Some err), w)
      | Inr cwd0 \<Rightarrow>
          deferred_Chdir cwd0
            (case os_Chdir (folder gr) w of
               (Some err, w1) \<Rightarrow> (Returned (Some err), w1)
             | (None, w1) \<Rightarrow>
                 (case (if \<not> exists w1 (path_Join [folder gr, ''.git''])
                        then (Info (log gr), [''git'', ''clone'', repo gr, ''.''], ''clone'')
                        else (Info (log gr),
                              [''git'', ''pull'', ''--rebase'', ''origin'', ''master''], ''pull'')) of
                    (Panicked p, cmd, pullOrClone) \<Rightarrow> (Panicked p, w1)
                  | (Returned u, cmd, pullOrClone) \<Rightarrow>
                      (case CombinedOutput run cmd w1 of
                         ((stdoutStderr, err), w2) \<Rightarrow>
                           (if bytes_Contains stdoutStderr ''fatal''
                            then (Returned (Some (ErrorString
                                    (''Could not '' @ pullOrClone @ '' repo''))), w2)
                            else (Returned err, w2))))))"

text \<open>\<open>Push\<close>: \<open>git push origin master\<close>.\<close>

definition Push :: "runner \<Rightarrow> GitRepo \<Rightarrow> world \<Rightarrow> error option outcome \<times> world" where
  "Push run gr w =
     (case os_Getwd w of
        Inl err \<Rightarrow> (Returned (Some err), w)
      | Inr cwd0 \<Rightarrow>
          deferred_Chdir cwd0
            (case os_Chdir (folder gr) w of
               (Some err, w1) \<Rightarrow> (Returned (Some err), w1)
             | (None, w1) \<Rightarrow>
                 (case Info (log gr) of
                    Panicked p \<Rightarrow> (Panicked p, w1)
                  | Returned u \<Rightarrow>
                      (case CombinedOutput run [''git'', ''push'', ''origin'', ''master''] w1 of
                         ((stdoutStderr, err), w2) \<Rightarrow>
                           (if bytes_Contains stdoutStderr ''error''
                            then (Returned (Some (ErrorString stdoutStderr)), w2)
                            else (Returned err, w2))))))"

text \<open>
  \<open>AddData(data, fp)\<close>: write the file, \<open>git add\<close>, \<open>git commit\<close>. The error of the
  \<open>add\<close> invocation stays in \<open>err\<close>; that of the \<open>commit\<close> invocation is assigned to
  the blank identifier.
\<close>

definition AddData ::
  "runner \<Rightarrow> GitRepo \<Rightarrow> string \<Rightarrow> string \<Rightarrow> world \<Rightarrow> error option outcome \<times> world" where
  "AddData run gr data fp w =
     (case os_Getwd w of
        Inl err \<Rightarrow> (Returned (Some err), w)
      | Inr cwd0 \<Rightarrow>
          deferred_Chdir cwd0
            (case os_Chdir (folder gr) w of
               (Some err, w1) \<Rightarrow> (Returned (Some err), w1)
             | (None, w1) \<Rightarrow>
                 (case filepath_Split fp of
                    (dir, file) \<Rightarrow>
                 (case Info (log gr) of
                    Panicked p \<Rightarrow> (Panicked p, w1)
                  | Returned u \<Rightarrow>
                 (case (if length dir > 0 then os_MkdirAll dir 509 w1 else (None, w1)) of
                    (Some err, w2) \<Rightarrow> (Returned (Some err), w2)
                  | (None, w2) \<Rightarrow>
                 (case ioutil_WriteFile fp data 493 w2 of
                    (Some err, w3) \<Rightarrow> (Returned (Some err), w3)
                  | (None, w3) \<Rightarrow>
                 (case CombinedOutput run [''git'', ''add'', fp] w3 of
                    ((stdoutStderr, err), w4) \<Rightarrow>
                      (if bytes_Contains stdoutStderr ''error''
                       then (Returned (Some (ErrorString stdoutStderr)), w4)
                       else
                 (case filepath_Split fp of
                    (dir2, fileName) \<Rightarrow>
                 (case CombinedOutput run
                         [''git'', ''commit'', ''-m'', ''Add '' @ fileName, fp] w4 of
                    ((stdoutStderr2, err2), w5) \<Rightarrow>
                      (if bytes_Contains stdoutStderr2 ''error''
                       then (Returned (Some (ErrorString stdoutStderr2)), w5)
                       else (Returned err, w5))))))))))))"

text \<open>
  \<open>GetRemoteOriginURL(repoFolder)\<close> returns \<open>(repo, err)\<close>: \<open>repo\<close> is empty until
  the output is trimmed into it, \<open>err\<close> is the last error assigned.
\<close>

definition GetRemoteOriginURL :: "runner \<Rightarrow> string \<Rightarrow> world \<Rightarrow> (string \<times> error option) \<times> world" where
  "GetRemoteOriginURL run repoFolder w =
     (case os_Getwd w of
        Inl err \<Rightarrow> (([], Some err), w)
      | Inr cwd0 \<Rightarrow>
          deferred_Chdir cwd0
            (case os_Chdir repoFolder w of
               (Some err, w1) \<Rightarrow> (([], Some err), w1)
             | (None, w1) \<Rightarrow>
                 (case CombinedOutput run [''git'', ''config'', ''--get'', ''remote.origin.url''] w1 of
                    ((stdoutStderr, err), w2) \<Rightarrow>
                      ((strings_TrimSpace stdoutStderr, err), w2))))"

section \<open>Well-formed paths\<close>

text \<open>
  A name of a directory entry is not empty, not \<open>"."\<close>, not \<open>".."\<close>, and has no slash; a
  path of such names is what \<open>os.Getwd\<close> prints and \<open>os.Chdir\<close> reads back.
  \<open>lexical c name\<close> is the path that the names of \<open>name\<close> spell out, whether or not
  the entries are there: where a look-up of \<open>name\<close> ends when it succeeds.
\<close>

definition plain :: "string \<Rightarrow> bool" where
  "plain n = (n \<noteq> [] \<and> n \<noteq> ''.'' \<and> CHR ''/'' \<notin> set n)"

definition properName :: "string \<Rightarrow> bool" where
  "properName n = (n \<noteq> [] \<and> n \<noteq> ''.'' \<and> n \<noteq> ''..'' \<and> CHR ''/'' \<notin> set n)"

definition properPath :: "path \<Rightarrow> bool" where
  "properPath p = list_all properName p"

definition lexical :: "path \<Rightarrow> string \<Rightarrow> path" where
  "lexical c name = foldl enter (if IsAbs name then [] else c) (segments name)"

section \<open>Example environments\<close>

text \<open>
  A home directory with an empty folder \<open>project\<close> (as \<open>New\<close> makes it), the same after
  a clone, and the same where the folder \<open>locked\<close> may not be made; the handles that
  \<open>New\<close> returns for them; and subprocess stubs: one that answers with a fixed output
  and error and touches no file, one that makes the directory \<open>.git\<close> where it runs.
  Further: the cloned folder with a regular file \<open>a\<close> in it; a world where the
  process stands in a directory \<open>work\<close> beside the folder, and a stub that removes
  that directory.
\<close>

definition homeFiles :: fsys where
  "homeFiles = [[''home''] \<mapsto> Dir, [''home'', ''u''] \<mapsto> Dir, [''home'', ''u'', ''project''] \<mapsto> Dir]"

definition freshWorld :: world where
  "freshWorld = \<lparr>cwd = [''home'', ''u''], fs = homeFiles, denied = (\<lambda>p. False), invoked = []\<rparr>"

definition clonedWorld :: world where
  "clonedWorld = freshWorld\<lparr>fs := homeFiles([''home'', ''u'', ''project'', ''.git''] \<mapsto> Dir)\<rparr>"

definition lockedWorld :: world where
  "lockedWorld = freshWorld\<lparr>denied := (\<lambda>p. p = [''home'', ''u'', ''locked''])\<rparr>"

definition fileWorld :: world where
  "fileWorld = clonedWorld\<lparr>fs := (fs clonedWorld)([''home'', ''u'', ''project'', ''a''] \<mapsto> File ''x'')\<rparr>"

definition workWorld :: world where
  "workWorld =
     clonedWorld\<lparr>cwd := [''home'', ''u'', ''work''],
                 fs := (fs clonedWorld)([''home'', ''u'', ''work''] \<mapsto> Dir)\<rparr>"

definition projectHandle :: GitRepo where
  "projectHandle =
     \<lparr>repo = ''https://host/group/project.git'', folder = ''/home/u/project'',
      logger = Some \<lparr>Level = WarnLevel\<rparr>, log = Some \<lparr>Data = [(''source'', ''gogit'')]\<rparr>\<rparr>"

definition lockedHandle :: GitRepo where
  "lockedHandle =
     \<lparr>repo = ''https://host/group/locked.git'', folder = ''/home/u/locked'',
      logger = None, log = None\<rparr>"

definition stub :: "string \<Rightarrow> error option \<Rightarrow> runner" where
  "stub out err args d f = ((out, err), f)"

definition removingStub :: runner where
  "removingStub args d f = (([], None), f([''home'', ''u'', ''work''] := None))"

definition cloneStub :: runner where
  "cloneStub args d f = (([], None), f(d @ [''.git''] \<mapsto> Dir))"

text \<open>
  What git prints when a pull finds unstaged changes and when a push does not reach the
  remote; both end with a non-zero exit status.
\<close>

definition unstagedOutput :: string where
  "unstagedOutput = ''error: cannot pull with rebase: You have unstaged changes.''"

definition offlineOutput :: string where
  "offlineOutput = ''fatal: unable to access the remote: Could not resolve host''"

definition committedOutput :: string where
  "committedOutput = ''[master 1a2b3c4] Add notes.txt''"

definition originOutput :: string where
  "originOutput = ''https://host/group/project.git'' @ [CHR 0x0A]"

text \<open>
  A stub whose \<open>add\<close> ends with exit status 1 and prints nothing, and whose other
  commands print the line of a commit and end with exit status 2.
\<close>

definition stagedStub :: runner where
  "stagedStub args d f =
     (if take 2 args = [''git'', ''add''] then (([], Some (ExitError 1)), f)
      else ((committedOutput, Some (ExitError 2)), f))"
section \<open>The first part of AddData\<close>

text \<open>
  \<open>prepared data fp w\<close> is the part of \<open>AddData\<close> between entering the folder,
  which leaves the world \<open>w\<close>, and starting \<open>git add\<close>: the directory of \<open>fp\<close> is made
  if \<open>fp\<close> names one, then the file is written. It returns the error of the step that
  failed, if one did.
\<close>

definition prepared :: "string \<Rightarrow> string \<Rightarrow> world \<Rightarrow> error option \<times> world" where
  "prepared data fp w =
     (case (if length (fst (filepath_Split fp)) > 0
            then os_MkdirAll (fst (filepath_Split fp)) 509 w
            else (None, w)) of
        (Some err, w2) \<Rightarrow> (Some err, w2)
      | (None, w2) \<Rightarrow> ioutil_WriteFile fp data 493 w2)"

section \<open>The folder name derived from the URL\<close>

lemma Index_beforeFirst:
  "beforeFirst sep s = (case strings_Index s sep of None \<Rightarrow> s | Some m \<Rightarrow> take m s)"
  by (induction s) (auto split: option.splits)

lemma Index_None_nomem: "strings_Index s [c] = None \<Longrightarrow> c \<notin> set s"
  by (induction s) (auto simp: HasPrefix_def split: if_splits)

lemma Index_Some_at: "strings_Index s [c] = Some m \<Longrightarrow> m < length s \<and> s ! m = c"
proof (induction s arbitrary: m)
  case Nil
  then show ?case by simp
next
  case (Cons a s)
  then show ?case by (auto simp: HasPrefix_def split: if_splits)
qed

lemma genSplitLoop_nonempty: "genSplitLoop k s sep \<noteq> []"
  by (cases k) (auto split: option.splits)

lemma hd_genSplitLoop:
  "hd (genSplitLoop k s sep) = (if k = 0 then s else beforeFirst sep s)"
  by (cases k) (auto simp: Index_beforeFirst split: option.splits)

lemma Count_zero:
  "sep \<noteq> [] \<Longrightarrow> strings_Count s sep = 0 \<Longrightarrow> beforeFirst sep s = s"
  by (cases s) (auto simp: strings_Count_def Index_beforeFirst split: option.splits)

lemma hd_Split: "sep \<noteq> [] \<Longrightarrow> hd (strings_Split s sep) = beforeFirst sep s"
  by (simp add: strings_Split_def hd_genSplitLoop Count_zero)

lemma takeWhile_stop: "\<not> P c \<Longrightarrow> takeWhile P (xs @ c # ys) = takeWhile P xs"
  by (induction xs) auto

lemma lastSegment_drop:
  assumes "m < length s" "s ! m = CHR ''/''"
  shows "lastSegment s = lastSegment (drop (Suc m) s)"
proof -
  have "s = take m s @ s ! m # drop (Suc m) s"
    using assms(1) by (simp add: id_take_nth_drop)
  then have "rev s = rev (drop (Suc m) s) @ CHR ''/'' # rev (take m s)"
    using assms(2) by (metis rev.simps(2) rev_append append.assoc append_Cons append_Nil)
  then show ?thesis
    by (simp add: lastSegment_def takeWhile_stop)
qed

lemma last_genSplitLoop:
  "length s \<le> n \<Longrightarrow>
   last (genSplitLoop (countLoop n s ''/'') s ''/'') = lastSegment s"
proof (induction n arbitrary: s)
  case 0
  then show ?case by (simp add: lastSegment_def)
next
  case (Suc n)
  show ?case
  proof (cases "strings_Index s ''/''")
    case None
    then have "\<forall>x\<in>set s. x \<noteq> CHR ''/''"
      using Index_None_nomem by blast
    then have tw: "takeWhile (\<lambda>c. c \<noteq> CHR ''/'') (rev s) = rev s"
      by simp
    from None show ?thesis by (simp add: lastSegment_def tw)
  next
    case (Some m)
    then have m: "m < length s" "s ! m = CHR ''/''"
      using Index_Some_at by auto
    have "length (drop (Suc m) s) \<le> n" using Suc.prems m by simp
    then have "last (genSplitLoop (countLoop n (drop (Suc m) s) ''/'') (drop (Suc m) s) ''/'')
               = lastSegment (drop (Suc m) s)"
      by (rule Suc.IH)
    with Some m show ?thesis
      by (simp add: genSplitLoop_nonempty lastSegment_drop [OF m])
  qed
qed

lemma last_Split: "last (strings_Split s ''/'') = lastSegment s"
  by (simp add: strings_Split_def strings_Count_def last_genSplitLoop)

lemma Split_nonempty: "sep \<noteq> [] \<Longrightarrow> strings_Split s sep \<noteq> []"
  by (simp add: strings_Split_def genSplitLoop_nonempty)

lemma index_first: "a \<noteq> [] \<Longrightarrow> index a 0 = Returned (hd a)"
  by (cases a) (simp_all add: index_def)

lemma index_last: "a \<noteq> [] \<Longrightarrow> index a (int (length a) - 1) = Returned (last a)"
  by (cases a rule: rev_cases) (simp_all add: index_def nth_append)

lemma enc_length: "e \<in> set spaceEncodings \<Longrightarrow> 0 < length e \<and> length e \<le> 3"
proof -
  have "\<forall>e\<in>set spaceEncodings. 0 < length e \<and> length e \<le> 3"
    by (simp add: spaceEncodings_def)
  then show "e \<in> set spaceEncodings \<Longrightarrow> 0 < length e \<and> length e \<le> 3" by blast
qed

lemma enc_nonempty: "e \<in> set spaceEncodings \<Longrightarrow> e \<noteq> []"
  using enc_length [of e] by auto

lemma enc_shape:
  "e \<in> set spaceEncodings \<Longrightarrow> (\<exists>a. e = [a]) \<or> (\<exists>a b. e = [a, b]) \<or> (\<exists>a b c. e = [a, b, c])"
  using enc_length [of e] by (cases e rule: blank.cases) auto

lemma lead1: "[a] \<in> set spaceEncodings \<Longrightarrow> [a, b] \<notin> set spaceEncodings \<and> [a, b, c] \<notin> set spaceEncodings"
  by (auto simp: spaceEncodings_def)

lemma lead2: "[a, b] \<in> set spaceEncodings \<Longrightarrow> [a] \<notin> set spaceEncodings \<and> [a, b, c] \<notin> set spaceEncodings"
  by (auto simp: spaceEncodings_def)

lemma lead3: "[a, b, c] \<in> set spaceEncodings \<Longrightarrow> [a] \<notin> set spaceEncodings \<and> [a, b] \<notin> set spaceEncodings"
  by (auto simp: spaceEncodings_def)

declare blank.simps [simp del]

lemma blank_one: "[a] \<in> set spaceEncodings \<Longrightarrow> blank (a # s) = blank s"
proof -
  assume a: "[a] \<in> set spaceEncodings"
  show ?thesis
  proof (cases s)
    case Nil
    with a show ?thesis by (simp add: blank.simps(1,2))
  next
    case s: (Cons b s1)
    show ?thesis
    proof (cases s1)
      case Nil
      with a s lead1 [OF a] show ?thesis by (simp add: blank.simps(3))
    next
      case (Cons c s2)
      with a s lead1 [OF a] show ?thesis by (simp add: blank.simps(4))
    qed
  qed
qed

lemma blank_two: "[a, b] \<in> set spaceEncodings \<Longrightarrow> blank (a # b # s) = blank s"
proof -
  assume a: "[a, b] \<in> set spaceEncodings"
  show ?thesis
  proof (cases s)
    case Nil
    with a show ?thesis by (simp add: blank.simps(1,3))
  next
    case (Cons c s1)
    with a lead2 [OF a] show ?thesis by (simp add: blank.simps(4))
  qed
qed

lemma blank_three: "[a, b, c] \<in> set spaceEncodings \<Longrightarrow> blank (a # b # c # s) = blank s"
  using lead3 [of a b c] by (simp add: blank.simps(4))

lemma blank_enc: "e \<in> set spaceEncodings \<Longrightarrow> blank (e @ s) = blank s"
  using enc_shape [of e] blank_one blank_two blank_three by auto

lemma blank_first:
  "blank s \<Longrightarrow> s \<noteq> [] \<Longrightarrow> \<exists>e\<in>set spaceEncodings. \<exists>t. s = e @ t \<and> blank t"
proof (induction s rule: blank.induct)
  case 1
  then show ?case by simp
next
  case (2 a)
  then have "[a] \<in> set spaceEncodings" by (simp add: blank.simps)
  then show ?case by (intro bexI [of _ "[a]"] exI [of _ "[]"]) (simp_all add: blank.simps)
next
  case (3 a b)
  then consider "[a, b] \<in> set spaceEncodings" | "[a] \<in> set spaceEncodings" "blank [b]"
    by (auto simp: blank.simps)
  then show ?case
  proof cases
    case 1
    then show ?thesis by (intro bexI [of _ "[a, b]"] exI [of _ "[]"]) (simp_all add: blank.simps)
  next
    case 2
    then show ?thesis by (intro bexI [of _ "[a]"] exI [of _ "[b]"]) simp_all
  qed
next
  case (4 a b c s)
  then consider "[a] \<in> set spaceEncodings" "blank (b # c # s)"
    | "[a, b] \<in> set spaceEncodings" "blank (c # s)"
    | "[a, b, c] \<in> set spaceEncodings" "blank s"
    by (auto simp: blank.simps(4))
  then show ?case
  proof cases
    case 1
    then show ?thesis by (intro bexI [of _ "[a]"] exI [of _ "b # c # s"]) simp_all
  next
    case 2
    then show ?thesis by (intro bexI [of _ "[a, b]"] exI [of _ "c # s"]) simp_all
  next
    case 3
    then show ?thesis by (intro bexI [of _ "[a, b, c]"] exI [of _ "s"]) simp_all
  qed
qed

lemma blank_concat: "blank s \<longleftrightarrow> (\<exists>es. set es \<subseteq> set spaceEncodings \<and> s = concat es)"
proof
  show "blank s \<Longrightarrow> \<exists>es. set es \<subseteq> set spaceEncodings \<and> s = concat es"
  proof (induction "length s" arbitrary: s rule: less_induct)
    case less
    show ?case
    proof (cases "s = []")
      case True
      then show ?thesis by (intro exI [of _ "[]"]) simp
    next
      case False
      with less.prems obtain e t where e: "e \<in> set spaceEncodings" "s = e @ t" "blank t"
        using blank_first by blast
      then have "length t < length s" using enc_nonempty by auto
      with less.hyps e(3) obtain es where "set es \<subseteq> set spaceEncodings" "t = concat es" by blast
      with e show ?thesis by (intro exI [of _ "e # es"]) simp
    qed
  qed
next
  assume "\<exists>es. set es \<subseteq> set spaceEncodings \<and> s = concat es"
  then obtain es where es: "set es \<subseteq> set spaceEncodings" "s = concat es" by blast
  have "blank (concat es)" using es(1)
    by (induction es) (simp_all add: blank.simps(1) blank_enc)
  with es(2) show "blank s" by simp
qed

lemma enc_suffix_free: "\<forall>e\<in>set spaceEncodings. \<forall>e'\<in>set spaceEncodings.
               take (length e) (rev e') = rev e \<longrightarrow> e = e'"
    by (simp add: spaceEncodings_def)

lemma take_rev_suffix:
  assumes "x @ e = y @ e'" "length e \<le> length e'"
  shows "take (length e) (rev e') = rev e"
proof -
  have "rev (x @ e) = rev (y @ e')" using assms(1) by (rule arg_cong)
  then have "rev e @ rev x = rev e' @ rev y" by simp
  then have "take (length e) (rev e @ rev x) = take (length e) (rev e' @ rev y)"
    by (rule arg_cong)
  then show ?thesis using assms(2) by simp
qed

lemma enc_suffix:
  assumes "e \<in> set spaceEncodings" "e' \<in> set spaceEncodings" "x @ e = y @ e'"
  shows "e = e'"
proof (cases "length e \<le> length e'")
  case True
  from take_rev_suffix [OF assms(3) True] enc_suffix_free assms(1,2) show ?thesis by blast
next
  case False
  then have "length e' \<le> length e" by simp
  from take_rev_suffix [OF assms(3) [symmetric] this] enc_suffix_free assms(1,2) show ?thesis by blast
qed

lemma blank_last:
  assumes "blank s" "s \<noteq> []"
  shows "\<exists>e\<in>set spaceEncodings. \<exists>t. s = t @ e \<and> blank t"
proof -
  from assms(1) obtain es where es: "set es \<subseteq> set spaceEncodings" "s = concat es"
    using blank_concat by blast
  with assms(2) have "es \<noteq> []" by auto
  then have c: "es = butlast es @ [last es]" by simp
  have "s = concat (butlast es) @ last es"
    using es(2) c by (metis concat.simps(1,2) concat_append append_Nil2)
  moreover have "last es \<in> set spaceEncodings" using es(1) \<open>es \<noteq> []\<close> by auto
  moreover have "set (butlast es) \<subseteq> set spaceEncodings" using es(1) by (auto dest: in_set_butlastD)
  then have "blank (concat (butlast es))" using blank_concat by blast
  ultimately show ?thesis by blast
qed

lemma blank_snoc:
  assumes "e \<in> set spaceEncodings"
  shows "blank (s @ e) = blank s"
proof
  assume "blank s"
  then obtain es where "set es \<subseteq> set spaceEncodings" "s = concat es"
    using blank_concat by blast
  then have "set (es @ [e]) \<subseteq> set spaceEncodings \<and> s @ e = concat (es @ [e])"
    using assms by simp
  then show "blank (s @ e)" using blank_concat by blast
next
  assume b: "blank (s @ e)"
  have "s @ e \<noteq> []" using assms enc_nonempty by auto
  with b obtain e' t where e': "e' \<in> set spaceEncodings" "s @ e = t @ e'" "blank t"
    using blank_last by blast
  then have "e = e'" using assms enc_suffix by blast
  with e' show "blank s" by simp
qed

lemma trimLeftOf_longest:
  assumes ne: "\<And>e. e \<in> set encs \<Longrightarrow> e \<noteq> []"
    and step: "\<And>e s. e \<in> set encs \<Longrightarrow> B (e @ s) = B s"
    and nil: "B []"
    and first: "\<And>s. B s \<Longrightarrow> s \<noteq> [] \<Longrightarrow> \<exists>e\<in>set encs. \<exists>t. s = e @ t"
  shows "length s \<le> k \<Longrightarrow>
         \<exists>n\<le>length s. trimLeftOf encs k s = drop n s \<and> B (take n s)
           \<and> (\<forall>m\<le>length s. B (take m s) \<longrightarrow> m \<le> n)"
proof (induction k arbitrary: s)
  case 0
  then show ?case using nil by simp
next
  case (Suc k)
  show ?case
  proof (cases "find (\<lambda>e. e \<noteq> [] \<and> HasPrefix s e) encs")
    case None
    then have no: "\<And>e. e \<in> set encs \<Longrightarrow> \<not> HasPrefix s e"
      using ne by (auto simp: find_None_iff)
    have "m \<le> 0" if m: "m \<le> length s" "B (take m s)" for m
    proof (rule ccontr)
      assume "\<not> m \<le> 0"
      then have "take m s \<noteq> []" using Suc.prems m(1) by (cases s) auto
      with m(2) obtain e t where e: "e \<in> set encs" "take m s = e @ t" using first by blast
      then have "take (length e) (take m s) = e" by simp
      then have "take (length e) s = e"
        by (metis e(2) append_eq_conv_conj take_take min.absorb1 length_append le_add1 length_take
            min.cobounded2 order_trans)
      then show False using no [OF e(1)] by (simp add: HasPrefix_def)
    qed
    with None nil show ?thesis by (intro exI [of _ 0]) auto
  next
    case (Some e)
    then have e: "e \<in> set encs" "e \<noteq> []" "take (length e) s = e"
      by (auto simp: find_Some_iff HasPrefix_def in_set_conv_nth)
    define s' where "s' = drop (length e) s"
    have s: "s = e @ s'" using e(3) by (metis append_take_drop_id s'_def)
    have le: "length s' \<le> k" using Suc.prems s e(2) by (cases e) auto
    from Suc.IH [OF le] obtain n where n: "n \<le> length s'" "trimLeftOf encs k s' = drop n s'"
      "B (take n s')" "\<forall>m\<le>length s'. B (take m s') \<longrightarrow> m \<le> n" by blast
    have a: "length e + n \<le> length s" using n(1) s by simp
    have b: "trimLeftOf encs (Suc k) s = drop (length e + n) s"
      using Some n(2) by (simp add: s'_def add.commute)
    have c: "B (take (length e + n) s)"
      using n(3) step [OF e(1)] by (subst s) simp
    have d: "m \<le> length e + n" if m: "m \<le> length s" "B (take m s)" for m
    proof (cases "m \<le> length e")
      case True
      then show ?thesis by simp
    next
      case False
      then have "take m s = e @ take (m - length e) s'" by (subst s) simp
      then have "B (take (m - length e) s')" using m(2) step [OF e(1)] by simp
      moreover have "m - length e \<le> length s'" using m(1) s by simp
      ultimately have "m - length e \<le> n" using n(4) by blast
      then show ?thesis by simp
    qed
    from a b c d show ?thesis by blast
  qed
qed

lemma leadingBlank_longest:
  "n \<le> k \<Longrightarrow> blank (take n s) \<Longrightarrow> (\<forall>m\<le>k. blank (take m s) \<longrightarrow> m \<le> n) \<Longrightarrow>
   leadingBlank k s = n"
proof (induction k)
  case 0
  then show ?case by simp
next
  case (Suc k)
  show ?case
  proof (cases "blank (take (Suc k) s)")
    case True
    then have "Suc k \<le> n" using Suc.prems(3) by blast
    with Suc.prems(1) True show ?thesis by simp
  next
    case False
    then have "n \<noteq> Suc k" using Suc.prems(2) by auto
    then have "n \<le> k" using Suc.prems(1) by simp
    with Suc False show ?thesis by simp
  qed
qed

lemma trailingBlank_longest:
  "n \<le> k \<Longrightarrow> blank (drop (length s - n) s) \<Longrightarrow>
   (\<forall>m\<le>k. blank (drop (length s - m) s) \<longrightarrow> m \<le> n) \<Longrightarrow>
   trailingBlank k s = n"
proof (induction k)
  case 0
  then show ?case by simp
next
  case (Suc k)
  show ?case
  proof (cases "blank (drop (length s - Suc k) s)")
    case True
    then have "Suc k \<le> n" using Suc.prems(3) by blast
    with Suc.prems(1) True show ?thesis by simp
  next
    case False
    then have "n \<noteq> Suc k" using Suc.prems(2) by auto
    then have "n \<le> k" using Suc.prems(1) by simp
    with Suc False show ?thesis by simp
  qed
qed

lemma TrimLeftSpace_longest: "TrimLeftSpace s = drop (leadingBlank (length s) s) s"
proof -
  have "\<exists>n\<le>length s. trimLeftOf spaceEncodings (length s) s = drop n s \<and> blank (take n s)
           \<and> (\<forall>m\<le>length s. blank (take m s) \<longrightarrow> m \<le> n)"
  proof (rule trimLeftOf_longest)
    show "\<And>e. e \<in> set spaceEncodings \<Longrightarrow> e \<noteq> []" by (rule enc_nonempty)
    show "\<And>e s. e \<in> set spaceEncodings \<Longrightarrow> blank (e @ s) = blank s" by (rule blank_enc)
    show "blank []" by (simp add: blank.simps)
    show "\<And>s. blank s \<Longrightarrow> s \<noteq> [] \<Longrightarrow> \<exists>e\<in>set spaceEncodings. \<exists>t. s = e @ t"
      using blank_first by blast
    show "length s \<le> length s" by simp
  qed
  then obtain n where n: "n \<le> length s" "trimLeftOf spaceEncodings (length s) s = drop n s"
    "blank (take n s)" "\<forall>m\<le>length s. blank (take m s) \<longrightarrow> m \<le> n" by blast
  from leadingBlank_longest [OF n(1,3,4)] n(2) show ?thesis by (simp add: TrimLeftSpace_def)
qed

lemma TrimRightSpace_longest:
  "TrimRightSpace s = take (length s - trailingBlank (length s) s) s"
proof -
  have "\<exists>n\<le>length (rev s). trimLeftOf (map rev spaceEncodings) (length s) (rev s) = drop n (rev s)
           \<and> blank (rev (take n (rev s)))
           \<and> (\<forall>m\<le>length (rev s). blank (rev (take m (rev s))) \<longrightarrow> m \<le> n)"
  proof (rule trimLeftOf_longest [where B = "\<lambda>x. blank (rev x)"])
    show "\<And>e. e \<in> set (map rev spaceEncodings) \<Longrightarrow> e \<noteq> []" using enc_nonempty by auto
    show "\<And>e x. e \<in> set (map rev spaceEncodings) \<Longrightarrow> blank (rev (e @ x)) = blank (rev x)"
      using blank_snoc by auto
    show "blank (rev [])" by (simp add: blank.simps)
    show "\<exists>e\<in>set (map rev spaceEncodings). \<exists>t. x = e @ t" if "blank (rev x)" "x \<noteq> []" for x
    proof -
      from that obtain e t where e: "e \<in> set spaceEncodings" "rev x = t @ e"
        using blank_last [of "rev x"] by auto
      then have "x = rev e @ rev t" by (metis rev_append rev_rev_ident)
      with e(1) show ?thesis by auto
    qed
    show "length (rev s) \<le> length s" by simp
  qed
  then obtain n where n: "n \<le> length s"
    "trimLeftOf (map rev spaceEncodings) (length s) (rev s) = drop n (rev s)"
    "blank (rev (take n (rev s)))"
    "\<forall>m\<le>length s. blank (rev (take m (rev s))) \<longrightarrow> m \<le> n" by auto
  have r: "rev (take m (rev s)) = drop (length s - m) s" for m
    by (simp add: rev_take)
  have "trailingBlank (length s) s = n"
    using n(1,3,4) unfolding r by (intro trailingBlank_longest) auto
  moreover have "rev (drop n (rev s)) = take (length s - n) s" by (simp add: rev_drop)
  ultimately show ?thesis using n(2) by (simp add: TrimRightSpace_def)
qed

lemma TrimSpace_trimWhitespace: "strings_TrimSpace s = trimWhitespace s"
  by (simp add: strings_TrimSpace_def trimWhitespace_def Let_def TrimLeftSpace_longest
      TrimRightSpace_longest)

text \<open>
  C3. \<open>ParseRepoFolder\<close> never panics and returns, for every input, the last
  \<open>"/"\<close>-segment of the part of the input before the first \<open>".git"\<close>, without the
  white space around it. It returns \<open>"project"\<close> for
  \<open>"https://host/group/project.git"\<close> and for \<open>"https://host/group/project"\<close>, the
  name without the tab, the spaces, the no-break space and the line feed around it
  (the space inside stays), and the empty string for the empty input and for a
  segment that is blank.
\<close>

theorem ParseRepoFolder_deriveRepoFolder:
  "ParseRepoFolder url = Returned (deriveRepoFolder url)
   \<and> ParseRepoFolder ''https://host/group/project.git'' = Returned ''project''
   \<and> ParseRepoFolder ''https://host/group/project'' = Returned ''project''
   \<and> ParseRepoFolder (''https://host/group/'' @ [CHR 0x09, CHR 0x20] @ ''my project''
                        @ [CHR 0xC2, CHR 0xA0, CHR 0x20, CHR 0x0A] @ ''.git'')
       = Returned ''my project''
   \<and> ParseRepoFolder [] = Returned []
   \<and> ParseRepoFolder ''https://host/group/  '' = Returned []"
proof -
  have "ParseRepoFolder r = Returned (deriveRepoFolder r)" for r
    by (simp add: ParseRepoFolder_def deriveRepoFolder_def Let_def index_first index_last
        Split_nonempty hd_Split last_Split TrimSpace_trimWhitespace)
  moreover have "deriveRepoFolder ''https://host/group/project.git'' = ''project''"
    by code_simp
  moreover have "deriveRepoFolder ''https://host/group/project'' = ''project''"
    by code_simp
  moreover have "deriveRepoFolder (''https://host/group/'' @ [CHR 0x09, CHR 0x20] @ ''my project''
                        @ [CHR 0xC2, CHR 0xA0, CHR 0x20, CHR 0x0A] @ ''.git'') = ''my project''"
    by code_simp
  moreover have "deriveRepoFolder [] = []"
    by code_simp
  moreover have "deriveRepoFolder ''https://host/group/  '' = []"
    by code_simp
  ultimately show ?thesis by simp
qed

section \<open>Paths\<close>

lemma Index_Some_before: "strings_Index s [c] = Some m \<Longrightarrow> c \<notin> set (take m s)"
proof (induction s arbitrary: m)
  case Nil
  then show ?case by simp
next
  case (Cons a s)
  then show ?case by (auto simp: HasPrefix_def split: if_splits)
qed

lemma segments_nonempty: "segments s \<noteq> []"
  by (induction s) (auto split: list.splits)

lemma segments_noslash: "CHR ''/'' \<notin> set a \<Longrightarrow> segments a = [a]"
  by (induction a) auto

lemma segments_cut: "CHR ''/'' \<notin> set a \<Longrightarrow> segments (a @ CHR ''/'' # b) = a # segments b"
  by (induction a) auto

lemma segments_append: "segments (a @ CHR ''/'' # b) = segments a @ segments b"
  by (induction a) (auto simp: segments_nonempty split: list.splits)

lemma segments_names: "x \<in> set (segments s) \<Longrightarrow> CHR ''/'' \<notin> set x"
proof (induction s arbitrary: x)
  case Nil
  then show ?case by simp
next
  case (Cons c s)
  then show ?case by (auto split: if_splits list.splits)
qed

lemma genSplitLoop_segments:
  "length s \<le> n \<Longrightarrow> genSplitLoop (countLoop n s ''/'') s ''/'' = segments s"
proof (induction n arbitrary: s)
  case 0
  then show ?case by simp
next
  case (Suc n)
  show ?case
  proof (cases "strings_Index s ''/''")
    case None
    then have "CHR ''/'' \<notin> set s" by (rule Index_None_nomem)
    with None show ?thesis by (simp add: segments_noslash)
  next
    case (Some m)
    then have m: "m < length s" "s ! m = CHR ''/''" "CHR ''/'' \<notin> set (take m s)"
      using Index_Some_at Index_Some_before by auto
    have s: "s = take m s @ CHR ''/'' # drop (Suc m) s"
      using m(1,2) by (metis id_take_nth_drop)
    have "length (drop (Suc m) s) \<le> n" using Suc.prems m by simp
    then have IH: "genSplitLoop (countLoop n (drop (Suc m) s) ''/'') (drop (Suc m) s) ''/''
                   = segments (drop (Suc m) s)"
      by (rule Suc.IH)
    have "segments s = take m s # segments (drop (Suc m) s)"
      using segments_cut [OF m(3), of "drop (Suc m) s"] s by simp
    with Some IH show ?thesis by simp
  qed
qed

lemma Split_slash: "strings_Split s ''/'' = segments s"
  by (simp add: strings_Split_def strings_Count_def genSplitLoop_segments)

lemma segments_Join:
  "names \<noteq> [] \<Longrightarrow> \<forall>n\<in>set names. CHR ''/'' \<notin> set n \<Longrightarrow>
   segments (strings_Join names ''/'') = names"
proof (induction names)
  case Nil
  then show ?case by simp
next
  case (Cons a names)
  show ?case
  proof (cases names)
    case Nil
    with Cons.prems show ?thesis by (simp add: strings_Join_def segments_noslash)
  next
    case (Cons b rest)
    have "strings_Join (a # names) ''/'' = a @ CHR ''/'' # strings_Join names ''/''"
      using Cons by (simp add: strings_Join_def)
    moreover have "segments (strings_Join names ''/'') = names"
      using Cons.IH Cons.prems Cons by simp
    ultimately show ?thesis using Cons.prems by (simp add: segments_cut)
  qed
qed

lemma foldl_enter_plain:
  "plain x \<Longrightarrow> x \<noteq> ''..'' \<Longrightarrow> enter p x = p @ [x]"
  by (simp add: enter_def plain_def)

lemma cleanElem_set:
  "x \<in> set (cleanElem rooted acc n) \<Longrightarrow> x \<in> set acc \<or> (x = n \<and> n \<noteq> [] \<and> n \<noteq> ''.'')"
proof (cases "n = [] \<or> n = ''.''")
  case True
  moreover assume "x \<in> set (cleanElem rooted acc n)"
  ultimately show ?thesis by (auto simp: cleanElem_def)
next
  case False
  assume x: "x \<in> set (cleanElem rooted acc n)"
  show ?thesis
  proof (cases "n = ''..''")
    case dots: True
    show ?thesis
    proof (cases acc)
      case Nil
      with x dots False show ?thesis by (cases rooted) (simp_all add: cleanElem_def)
    next
      case (Cons y rest)
      with x dots False show ?thesis by (cases "y = ''..''") (simp_all add: cleanElem_def)
    qed
  next
    case name: False
    with x False show ?thesis by (auto simp: cleanElem_def)
  qed
qed

lemma cleanElem_rooted:
  assumes "''..'' \<notin> set acc"
  shows "''..'' \<notin> set (cleanElem True acc n)"
proof (cases "n = ''..''")
  case True
  show ?thesis
  proof (cases acc)
    case Nil
    with True show ?thesis by (simp add: cleanElem_def)
  next
    case (Cons y rest)
    with True assms show ?thesis by (auto simp: cleanElem_def)
  qed
next
  case False
  with assms show ?thesis by (simp add: cleanElem_def)
qed

lemma clean_fold:
  assumes "\<forall>x\<in>set acc. plain x" "rooted \<longrightarrow> b = [] \<and> ''..'' \<notin> set acc"
    "\<forall>n\<in>set names. CHR ''/'' \<notin> set n"
  shows "foldl enter b (rev (foldl (cleanElem rooted) acc names))
           = foldl enter (foldl enter b (rev acc)) names
         \<and> (\<forall>x\<in>set (foldl (cleanElem rooted) acc names). plain x)"
  using assms
proof (induction names arbitrary: acc)
  case Nil
  then show ?case by simp
next
  case (Cons n names)
  let ?acc' = "cleanElem rooted acc n"
  have n: "CHR ''/'' \<notin> set n" using Cons.prems(3) by simp
  have step: "foldl enter b (rev ?acc') = enter (foldl enter b (rev acc)) n"
  proof (cases "n = [] \<or> n = ''.''")
    case True
    then show ?thesis by (auto simp: cleanElem_def enter_def)
  next
    case False
    show ?thesis
    proof (cases "n = ''..''")
      case True
      show ?thesis
      proof (cases acc)
        case Nil
        with True Cons.prems(2) show ?thesis by (auto simp: cleanElem_def enter_def)
      next
        case (Cons x rest)
        show ?thesis
        proof (cases "x = ''..''")
          case True
          with \<open>n = ''..''\<close> Cons show ?thesis by (simp add: cleanElem_def)
        next
          case False
          have "plain x" using Cons.prems(1) Cons by simp
          then have "enter (foldl enter b (rev rest)) x = foldl enter b (rev rest) @ [x]"
            using False by (rule foldl_enter_plain)
          with False \<open>n = ''..''\<close> Cons show ?thesis
            by (simp add: cleanElem_def enter_def)
        qed
      qed
    next
      case False
      with \<open>\<not> (n = [] \<or> n = ''.'')\<close> show ?thesis by (simp add: cleanElem_def)
    qed
  qed
  have p1: "\<forall>x\<in>set ?acc'. plain x"
  proof
    fix x assume "x \<in> set ?acc'"
    then have "x \<in> set acc \<or> (x = n \<and> n \<noteq> [] \<and> n \<noteq> ''.'')" by (rule cleanElem_set)
    then show "plain x" using Cons.prems(1) n by (auto simp: plain_def)
  qed
  have p2: "rooted \<longrightarrow> b = [] \<and> ''..'' \<notin> set ?acc'"
    using Cons.prems(2) cleanElem_rooted [of acc n] by auto
  have p3: "\<forall>n\<in>set names. CHR ''/'' \<notin> set n" using Cons.prems(3) by simp
  from Cons.IH [OF p1 p2 p3] step show ?case by simp
qed

lemma IsAbs_Cons [simp]: "IsAbs (c # cs) = (c = CHR ''/'')"
  by (simp add: IsAbs_def HasPrefix_def)

lemma IsAbs_Nil [simp]: "\<not> IsAbs []"
  by (simp add: IsAbs_def HasPrefix_def)

lemma foldl_enter_skip: "foldl enter b ([] # names) = foldl enter b names"
  by (simp add: enter_def)

lemma lexical_Clean: "lexical c (path_Clean p) = lexical c p"
proof (cases "p = []")
  case True
  then show ?thesis by (simp add: path_Clean_def lexical_def enter_def)
next
  case False
  define names where "names = rev (foldl (cleanElem (IsAbs p)) [] (segments p))"
  define b where "b = (if IsAbs p then [] else c)"
  have cf: "foldl enter b names = foldl enter b (segments p)"
    and pl: "\<forall>x\<in>set names. plain x"
    using clean_fold [of "[]" "IsAbs p" b "segments p"] segments_names
    by (auto simp: names_def b_def)
  have ns: "\<forall>n\<in>set names. CHR ''/'' \<notin> set n" using pl by (simp add: plain_def)
  show ?thesis
  proof (cases "names = []")
    case True
    then have "path_Clean p = (if IsAbs p then ''/'' else ''.'')"
      using False by (simp add: path_Clean_def names_def Split_slash strings_Join_def)
    then have "lexical c (path_Clean p) = b"
      by (simp add: lexical_def b_def enter_def)
    moreover have "lexical c p = foldl enter b (segments p)"
      by (simp add: lexical_def b_def)
    ultimately show ?thesis using cf True by simp
  next
    case nonempty: False
    have seg: "segments (strings_Join names ''/'') = names"
      using nonempty ns by (rule segments_Join)
    obtain n rest where nr: "names = n # rest" using nonempty by (cases names) auto
    have "plain n" using pl nr by simp
    then obtain ch tl where n: "n = ch # tl" "ch \<noteq> CHR ''/''"
      by (cases n) (auto simp: plain_def)
    have j: "\<exists>t. strings_Join names ''/'' = ch # t"
      using nr n by (simp add: strings_Join_def)
    show ?thesis
    proof (cases "IsAbs p")
      case True
      then have "path_Clean p = CHR ''/'' # strings_Join names ''/''"
        using False by (simp add: path_Clean_def names_def Split_slash Let_def)
      then have "lexical c (path_Clean p) = foldl enter [] names"
        using seg by (simp add: lexical_def foldl_enter_skip del: foldl_Cons)
      then show ?thesis using cf True by (simp add: lexical_def b_def)
    next
      case notabs: False
      then have "path_Clean p = strings_Join names ''/''"
        using False j by (auto simp: path_Clean_def names_def Split_slash Let_def)
      moreover have "\<not> IsAbs (strings_Join names ''/'')" using j n by auto
      ultimately have "lexical c (path_Clean p) = foldl enter c names"
        using seg by (simp add: lexical_def)
      then show ?thesis using cf notabs by (simp add: lexical_def b_def)
    qed
  qed
qed

lemma lexical_append:
  "a \<noteq> [] \<Longrightarrow> lexical c (a @ CHR ''/'' # b) = foldl enter (lexical c a) (segments b)"
proof -
  assume "a \<noteq> []"
  then have "IsAbs (a @ CHR ''/'' # b) = IsAbs a" by (cases a) simp_all
  then show ?thesis by (simp add: lexical_def segments_append del: segments.simps)
qed

lemma path_Clean_nonempty: "path_Clean p \<noteq> []"
  by (simp add: path_Clean_def Let_def)

lemma lexical_Join_git:
  assumes "dir \<noteq> []"
  shows "lexical c (path_Join [dir, ''.git'']) = lexical c dir @ [''.git'']"
    and "path_Join [dir, ''.git''] \<noteq> []"
proof -
  have j: "path_Join [dir, ''.git''] = path_Clean (dir @ CHR ''/'' # ''.git'')"
    using assms by (simp add: path_Join_def strings_Join_def)
  show "path_Join [dir, ''.git''] \<noteq> []"
    unfolding j by (rule path_Clean_nonempty)
  have "segments ''.git'' = [''.git'']" by (simp add: segments_noslash)
  then show "lexical c (path_Join [dir, ''.git'']) = lexical c dir @ [''.git'']"
    unfolding j lexical_Clean using assms
    by (simp add: lexical_append enter_def)
qed
section \<open>Files and directories\<close>

lemma walk_Dir_iff:
  "walk f pre names = Inr Dir \<longleftrightarrow> (\<forall>k\<le>length names. node_at f (pre @ take k names) = Some Dir)"
proof (induction names arbitrary: pre)
  case Nil
  then show ?case by (auto split: option.splits)
next
  case (Cons n names)
  show ?case
  proof (cases "node_at f pre")
    case None
    then show ?thesis by (auto intro: exI [of _ 0])
  next
    case (Some x)
    show ?thesis
    proof (cases x)
      case Dir
      have "(\<forall>k\<le>length (n # names). node_at f (pre @ take k (n # names)) = Some Dir)
            \<longleftrightarrow> (\<forall>k\<le>length names. node_at f ((pre @ [n]) @ take k names) = Some Dir)"
      proof
        assume a: "\<forall>k\<le>length (n # names). node_at f (pre @ take k (n # names)) = Some Dir"
        show "\<forall>k\<le>length names. node_at f ((pre @ [n]) @ take k names) = Some Dir"
        proof (intro allI impI)
          fix k assume "k \<le> length names"
          then have "node_at f (pre @ take (Suc k) (n # names)) = Some Dir" using a by auto
          then show "node_at f ((pre @ [n]) @ take k names) = Some Dir" by simp
        qed
      next
        assume a: "\<forall>k\<le>length names. node_at f ((pre @ [n]) @ take k names) = Some Dir"
        show "\<forall>k\<le>length (n # names). node_at f (pre @ take k (n # names)) = Some Dir"
        proof (intro allI impI)
          fix k assume k: "k \<le> length (n # names)"
          show "node_at f (pre @ take k (n # names)) = Some Dir"
          proof (cases k)
            case 0
            then show ?thesis using Some Dir by simp
          next
            case (Suc j)
            then show ?thesis using a k by simp
          qed
        qed
      qed
      with Cons.IH [of "pre @ [n]"] Some Dir show ?thesis by simp
    next
      case (File c)
      with Some show ?thesis by (auto intro: exI [of _ 0])
    qed
  qed
qed

lemma isDir_iff: "isDir f p \<longleftrightarrow> (\<forall>k\<le>length p. node_at f (take k p) = Some Dir)"
  using walk_Dir_iff [of f "[]" p] by (simp add: isDir_def)

lemma isDir_mono:
  assumes "isDir f p" "\<And>q. f q = Some Dir \<Longrightarrow> g q = Some Dir"
  shows "isDir g p"
  using assms unfolding isDir_iff node_at_def by (auto split: if_splits)

lemma walk_below_Dir:
  "walk f pre xs = Inr Dir \<Longrightarrow> walk f pre (xs @ ys) = walk f (pre @ xs) ys"
proof (induction xs arbitrary: pre)
  case Nil
  then show ?case by simp
next
  case (Cons x xs)
  then show ?case by (auto split: option.splits node.splits)
qed

lemma walk_entry:
  "isDir f p \<Longrightarrow> walk f [] (p @ [n]) = (case f (p @ [n]) of None \<Rightarrow> Inl ENOENT | Some x \<Rightarrow> Inr x)"
proof -
  assume d: "isDir f p"
  then have "node_at f p = Some Dir" by (auto simp: isDir_iff)
  moreover have "walk f [] (p @ [n]) = walk f p [n]"
    using d walk_below_Dir [of f "[]" p "[n]"] by (simp add: isDir_def)
  ultimately show ?thesis by (simp add: node_at_def)
qed

lemma isDir_not_prefix:
  assumes "isDir f p" "f q \<noteq> Some Dir" "q \<noteq> []"
  shows "isDir (f(q \<mapsto> x)) p"
  unfolding isDir_iff
proof (intro allI impI)
  fix k assume k: "k \<le> length p"
  then have n: "node_at f (take k p) = Some Dir" using assms(1) by (simp add: isDir_iff)
  then have "take k p \<noteq> q" using assms(2,3) by (auto simp: node_at_def split: if_splits)
  then show "node_at (f(q \<mapsto> x)) (take k p) = Some Dir"
    using n by (auto simp: node_at_def split: if_splits)
qed

lemma walk_append:
  "walk f pre (xs @ ys) =
     (case walk f pre xs of
        Inl e \<Rightarrow> Inl e
      | Inr Dir \<Rightarrow> walk f (pre @ xs) ys
      | Inr (File c) \<Rightarrow> (if ys = [] then Inr (File c) else Inl ENOTDIR))"
proof (induction xs arbitrary: pre)
  case Nil
  then show ?case by (cases ys) (auto split: option.splits node.splits)
next
  case (Cons x xs)
  then show ?case by (auto split: option.splits node.splits sum.splits)
qed

lemma isDir_walk: "isDir f p \<Longrightarrow> walk f [] p = Inr Dir"
  by (simp add: isDir_def)

lemma namei_lexical: "namei f cur names = Inr (p, n) \<Longrightarrow> p = foldl enter cur names"
  by (induction names arbitrary: cur) (auto split: sum.splits node.splits)

lemma namei_node: "namei f cur names = Inr (p, n) \<Longrightarrow> walk f [] p = Inr n"
  by (induction names arbitrary: cur) (auto split: sum.splits node.splits)

lemma namei_append:
  "namei f cur (xs @ ys) =
     (case namei f cur xs of
        Inl e \<Rightarrow> Inl e
      | Inr (p, Dir) \<Rightarrow> namei f p ys
      | Inr (p, File c) \<Rightarrow> (if ys = [] then Inr (p, File c) else Inl ENOTDIR))"
proof (induction xs arbitrary: cur)
  case Nil
  then show ?case by (cases ys) (auto split: sum.splits node.splits)
next
  case (Cons x xs)
  then show ?case by (auto split: sum.splits node.splits)
qed

lemma namei_mono:
  assumes "namei f cur xs = Inr (p, Dir)" and "\<And>q. f q = Some Dir \<Longrightarrow> g q = Some Dir"
  shows "namei g cur xs = Inr (p, Dir)"
  using assms(1)
proof (induction xs arbitrary: cur)
  case Nil
  then have "isDir f cur" "p = cur" by (auto simp: isDir_def split: sum.splits)
  then have "isDir g cur" using assms(2) isDir_mono by blast
  with \<open>p = cur\<close> show ?case by (simp add: isDir_def)
next
  case (Cons x xs)
  then have d: "isDir f cur" "namei f (enter cur x) xs = Inr (p, Dir)"
    by (auto simp: isDir_def split: sum.splits node.splits)
  then have "isDir g cur" using assms(2) isDir_mono by blast
  with Cons.IH [OF d(2)] show ?case by (simp add: isDir_def)
qed

lemma namei_proper:
  "list_all properName names \<Longrightarrow>
   namei f cur names =
     (case walk f [] (cur @ names) of Inl e \<Rightarrow> Inl e | Inr n \<Rightarrow> Inr (cur @ names, n))"
proof (induction names arbitrary: cur)
  case Nil
  then show ?case by (simp split: sum.splits)
next
  case (Cons x xs)
  then have x: "enter cur x = cur @ [x]" by (simp add: enter_def properName_def)
  have IH: "namei f (cur @ [x]) xs =
     (case walk f [] (cur @ x # xs) of Inl e \<Rightarrow> Inl e | Inr n \<Rightarrow> Inr (cur @ x # xs, n))"
    using Cons.IH [of "cur @ [x]"] Cons.prems by (simp split: sum.splits)
  show ?case
    using walk_append [of f "[]" cur "x # xs"] IH x
    by (auto split: sum.splits node.splits)
qed

lemma namei_empties:
  "namei f cur [] = Inr (cur, Dir) \<Longrightarrow> \<forall>n\<in>set es. n = [] \<Longrightarrow> namei f cur es = Inr (cur, Dir)"
  by (induction es) (auto simp: enter_def split: sum.splits node.splits)

lemma components_last: "components name \<noteq> [] \<Longrightarrow> last (components name) \<noteq> []"
proof -
  assume a: "components name \<noteq> []"
  then have d: "dropWhile (\<lambda>n. n = []) (rev (segments name)) \<noteq> []"
    by (simp add: components_def)
  have "last (components name) = hd (dropWhile (\<lambda>n. n = []) (rev (segments name)))"
    using d by (simp add: components_def last_rev)
  with hd_dropWhile [OF d] show ?thesis by simp
qed

lemma components_segments:
  "\<exists>es. segments name = components name @ es \<and> (\<forall>e\<in>set es. e = [])"
proof -
  let ?xs = "rev (segments name)"
  have "?xs = takeWhile (\<lambda>n. n = []) ?xs @ dropWhile (\<lambda>n. n = []) ?xs" by simp
  then have "rev ?xs = rev (dropWhile (\<lambda>n. n = []) ?xs) @ rev (takeWhile (\<lambda>n. n = []) ?xs)"
    by (metis rev_append)
  then have "segments name = components name @ rev (takeWhile (\<lambda>n. n = []) ?xs)"
    by (simp add: components_def)
  moreover have "\<forall>e\<in>set (rev (takeWhile (\<lambda>n. n = []) ?xs)). e = []"
    by (auto dest: set_takeWhileD)
  ultimately show ?thesis by blast
qed

lemma lookupParent_Inr:
  "lookupParent f c name = Inr p \<Longrightarrow>
   name \<noteq> [] \<and> namei f (if IsAbs name then [] else c) (butlast (components name)) = Inr (p, Dir)"
  by (auto simp: lookupParent_def split: if_splits sum.splits node.splits)

lemma entry_made:
  assumes par: "lookupParent f c name = Inr p"
    and comps: "components name \<noteq> []" "last (components name) \<noteq> ''.''"
      "last (components name) \<noteq> ''..''"
    and keep: "\<And>q. f q = Some Dir \<Longrightarrow> g q = Some Dir"
    and at: "g (p @ [last (components name)]) = Some n"
    and slash: "n = Dir \<or> components name = segments name"
  shows "lookup g c name = Inr (p @ [last (components name)], n)"
proof -
  let ?start = "if IsAbs name then [] else c"
  let ?l = "last (components name)"
  from par have name: "name \<noteq> []"
    and up: "namei f ?start (butlast (components name)) = Inr (p, Dir)"
    using lookupParent_Inr by blast+
  have up': "namei g ?start (butlast (components name)) = Inr (p, Dir)"
    using up keep by (rule namei_mono)
  have dir: "isDir g p" using namei_node [OF up'] by (simp add: isDir_def)
  have l: "?l \<noteq> []" using comps(1) by (rule components_last)
  have e: "enter p ?l = p @ [?l]" using l comps(2,3) by (simp add: enter_def)
  have there: "walk g [] (p @ [?l]) = Inr n"
    using walk_entry [OF dir, of ?l] at by simp
  obtain es where es: "segments name = components name @ es" "\<forall>e\<in>set es. e = []"
    using components_segments by blast
  have es': "n \<noteq> Dir \<Longrightarrow> es = []" using slash es(1) by auto
  have c: "components name = butlast (components name) @ [?l]" using comps(1) by simp
  have "segments name = butlast (components name) @ ?l # es"
    using es(1) c by (metis append.assoc append_Cons append_Nil)
  then have "namei g ?start (segments name) = namei g p (?l # es)"
    using namei_append [of g ?start "butlast (components name)" "?l # es"] up' by simp
  also have "\<dots> = namei g (p @ [?l]) es"
    using dir e by (simp add: isDir_def)
  also have "\<dots> = Inr (p @ [?l], n)"
  proof (cases "n = Dir")
    case True
    have "namei g (p @ [?l]) [] = Inr (p @ [?l], Dir)" using there True by simp
    then show ?thesis using es(2) True by (simp add: namei_empties)
  next
    case False
    then show ?thesis using es' there by simp
  qed
  finally show ?thesis using name by (simp add: lookup_def)
qed

lemma Mkdir_frame [simp]:
  "cwd (snd (os_Mkdir name perm w)) = cwd w"
  "invoked (snd (os_Mkdir name perm w)) = invoked w"
  "denied (snd (os_Mkdir name perm w)) = denied w"
  by (auto simp: os_Mkdir_def split: sum.splits)

lemma Mkdir_keeps: "fs w q = Some Dir \<Longrightarrow> fs (snd (os_Mkdir name perm w)) q = Some Dir"
  by (auto simp: os_Mkdir_def split: sum.splits)

lemma Mkdir_made:
  assumes "os_Mkdir name perm w = (None, w')"
  shows "stat (fs w') (cwd w') name = Inr Dir"
proof -
  from assms obtain p where p: "lookupParent (fs w) (cwd w) name = Inr p"
    "components name \<noteq> []" "last (components name) \<noteq> ''.''" "last (components name) \<noteq> ''..''"
    "fs w (p @ [last (components name)]) = None"
    "w' = w\<lparr>fs := (fs w)(p @ [last (components name)] \<mapsto> Dir)\<rparr>"
    by (auto simp: os_Mkdir_def split: sum.splits if_splits)
  have "lookup (fs w') (cwd w) name = Inr (p @ [last (components name)], Dir)"
    using p(1-4)
  proof (rule entry_made)
    show "\<And>q. fs w q = Some Dir \<Longrightarrow> fs w' q = Some Dir" using p(5,6) by auto
    show "fs w' (p @ [last (components name)]) = Some Dir" using p(6) by simp
    show "Dir = Dir \<or> components name = segments name" by simp
  qed
  moreover have "cwd w' = cwd w" using p(6) by simp
  ultimately show ?thesis by (simp add: stat_def)
qed

lemma WriteFile_frame [simp]:
  "cwd (snd (ioutil_WriteFile name data perm w)) = cwd w"
  "invoked (snd (ioutil_WriteFile name data perm w)) = invoked w"
  "denied (snd (ioutil_WriteFile name data perm w)) = denied w"
  by (auto simp: ioutil_WriteFile_def split: sum.splits node.splits option.splits)

lemma WriteFile_keeps:
  "fs w q = Some Dir \<Longrightarrow> fs (snd (ioutil_WriteFile name data perm w)) q = Some Dir"
  by (auto simp: ioutil_WriteFile_def split: sum.splits node.splits option.splits)

lemma WriteFile_written:
  assumes "ioutil_WriteFile name data perm w = (None, w')"
  shows "stat (fs w') (cwd w') name = Inr (File data)"
proof -
  from assms obtain p where p: "lookupParent (fs w) (cwd w) name = Inr p"
    "components name \<noteq> []" "last (components name) \<noteq> ''.''" "last (components name) \<noteq> ''..''"
    "components name = segments name"
    "fs w (p @ [last (components name)]) \<noteq> Some Dir"
    "w' = w\<lparr>fs := (fs w)(p @ [last (components name)] \<mapsto> File data)\<rparr>"
    by (auto simp: ioutil_WriteFile_def split: sum.splits if_splits node.splits option.splits)
  have "lookup (fs w') (cwd w) name = Inr (p @ [last (components name)], File data)"
    using p(1-4)
  proof (rule entry_made)
    show "\<And>q. fs w q = Some Dir \<Longrightarrow> fs w' q = Some Dir" using p(6,7) by auto
    show "fs w' (p @ [last (components name)]) = Some (File data)" using p(7) by simp
    show "File data = Dir \<or> components name = segments name" using p(5) by simp
  qed
  moreover have "cwd w' = cwd w" using p(7) by simp
  ultimately show ?thesis by (simp add: stat_def)
qed

lemma stat_Dir_mono:
  assumes "stat f c name = Inr Dir" and "\<And>q. f q = Some Dir \<Longrightarrow> g q = Some Dir"
  shows "stat g c name = Inr Dir"
proof -
  from assms(1) obtain p where "name \<noteq> []"
    "namei f (if IsAbs name then [] else c) (segments name) = Inr (p, Dir)"
    by (auto simp: stat_def lookup_def split: sum.splits if_splits)
  then show ?thesis using namei_mono [OF _ assms(2)] by (simp add: stat_def lookup_def)
qed

declare os_MkdirAll.simps [simp del]

lemma Stat_stat: "os_Stat w name = Inr n \<longleftrightarrow> stat (fs w) (cwd w) name = Inr n"
  by (simp add: os_Stat_def split: sum.splits)

lemma Lstat_stat: "os_Lstat w name = Inr n \<longleftrightarrow> stat (fs w) (cwd w) name = Inr n"
  by (simp add: os_Lstat_def split: sum.splits)

lemma MkdirAll_made:
  assumes "os_MkdirAll path perm w = (None, w')"
  shows "stat (fs w') (cwd w') path = Inr Dir"
proof -
  let ?j = "skipElement path (skipSeparators path (length path))"
  let ?up = "if 1 < ?j then os_MkdirAll (take (?j - 1) path) perm w else (None, w)"
  show ?thesis
  proof (cases "os_Stat w path")
    case (Inr n)
    then have "n = Dir" "w' = w"
      using assms by (cases n; simp add: os_MkdirAll.simps [of path perm w])+
    with Inr show ?thesis by (simp add: Stat_stat)
  next
    case (Inl e)
    obtain e1 w1 where u: "?up = (e1, w1)" by (cases ?up) auto
    obtain e2 w2 where m: "os_Mkdir path perm w1 = (e2, w2)"
      by (cases "os_Mkdir path perm w1") auto
    have e1: "e1 = None"
      using assms Inl u by (cases e1) (simp_all add: os_MkdirAll.simps [of path perm w])
    show ?thesis
    proof (cases e2)
      case None
      then have "w' = w2"
        using assms Inl u e1 m by (simp add: os_MkdirAll.simps [of path perm w])
      with m None show ?thesis using Mkdir_made by blast
    next
      case (Some x)
      then have "os_Lstat w2 path = Inr Dir \<and> w' = w2"
        using assms Inl u e1 m
        by (simp add: os_MkdirAll.simps [of path perm w] split: sum.splits node.splits)
      then show ?thesis by (simp add: Lstat_stat)
    qed
  qed
qed

lemma MkdirAll_invariant:
  assumes step: "\<And>name perm v. P v \<Longrightarrow> P (snd (os_Mkdir name perm v))"
  shows "P w \<Longrightarrow> P (snd (os_MkdirAll path perm w))"
proof (induction path perm w rule: os_MkdirAll.induct)
  case (1 path perm w)
  let ?j = "skipElement path (skipSeparators path (length path))"
  let ?up = "if 1 < ?j then os_MkdirAll (take (?j - 1) path) perm w else (None, w)"
  show ?case
  proof (cases "os_Stat w path")
    case (Inr n)
    then show ?thesis using "1.prems" by (cases n) (simp_all add: os_MkdirAll.simps [of path perm w])
  next
    case (Inl e)
    have up: "P (snd ?up)"
    proof (cases "1 < ?j")
      case True
      then show ?thesis using "1.IH" [OF Inl True] "1.prems" by simp
    next
      case False
      then show ?thesis using "1.prems" by simp
    qed
    obtain e1 w1 where u: "?up = (e1, w1)" by (cases ?up) auto
    then have w1: "P w1" using up by simp
    have made: "P (snd (os_Mkdir path perm w1))" using w1 by (rule step)
    show ?thesis
    proof (cases e1)
      case (Some x)
      then show ?thesis using Inl u w1 by (simp add: os_MkdirAll.simps [of path perm w])
    next
      case None
      obtain e2 w2 where m: "os_Mkdir path perm w1 = (e2, w2)"
        by (cases "os_Mkdir path perm w1") auto
      then have "P w2" using made by simp
      then show ?thesis
        using Inl u None m
        by (simp add: os_MkdirAll.simps [of path perm w] split: option.splits sum.splits node.splits)
    qed
  qed
qed

lemma MkdirAll_frame [simp]:
  "cwd (snd (os_MkdirAll path perm w)) = cwd w"
  "invoked (snd (os_MkdirAll path perm w)) = invoked w"
  "denied (snd (os_MkdirAll path perm w)) = denied w"
proof -
  show "cwd (snd (os_MkdirAll path perm w)) = cwd w"
    by (rule MkdirAll_invariant [where P = "\<lambda>v. cwd v = cwd w"]) simp_all
  show "invoked (snd (os_MkdirAll path perm w)) = invoked w"
    by (rule MkdirAll_invariant [where P = "\<lambda>v. invoked v = invoked w"]) simp_all
  show "denied (snd (os_MkdirAll path perm w)) = denied w"
    by (rule MkdirAll_invariant [where P = "\<lambda>v. denied v = denied w"]) simp_all
qed

lemma MkdirAll_keeps:
  "fs w q = Some Dir \<Longrightarrow> fs (snd (os_MkdirAll path perm w)) q = Some Dir"
  by (rule MkdirAll_invariant [where P = "\<lambda>v. fs v q = Some Dir"]) (simp_all add: Mkdir_keeps)

lemma MkdirAll_keeps_Dir:
  "isDir (fs w) p \<Longrightarrow> isDir (fs (snd (os_MkdirAll path perm w))) p"
  by (erule isDir_mono) (rule MkdirAll_keeps)

lemma WriteFile_keeps_Dir:
  "isDir (fs w) p \<Longrightarrow> isDir (fs (snd (ioutil_WriteFile name data perm w))) p"
  by (erule isDir_mono) (rule WriteFile_keeps)

lemma segments_render:
  "\<forall>n\<in>set ns. CHR ''/'' \<notin> set n \<Longrightarrow> CHR ''/'' \<notin> set n0 \<Longrightarrow>
   segments (n0 @ concat (map (\<lambda>name. CHR ''/'' # name) ns)) = n0 # ns"
proof (induction ns arbitrary: n0)
  case Nil
  then show ?case by (simp add: segments_noslash)
next
  case (Cons a ns)
  then show ?case by (simp add: segments_cut del: segments.simps)
qed

lemma foldl_enter_proper: "list_all properName ns \<Longrightarrow> foldl enter b ns = b @ ns"
  by (induction ns arbitrary: b) (auto simp: enter_def properName_def)

lemma namei_proper_root:
  "list_all properName names \<Longrightarrow>
   namei f [] names = (case walk f [] names of Inl e \<Rightarrow> Inl e | Inr n \<Rightarrow> Inr (names, n))"
  by (simp add: namei_proper split: sum.splits)

lemma namei_skip: "namei f [] ([] # names) = namei f [] names"
  by (simp add: enter_def node_at_def)

lemma lookup_render:
  assumes "properPath p"
  shows "lookup f c (render p) =
           (case walk f [] p of Inl e \<Rightarrow> Inl e | Inr n \<Rightarrow> Inr (p, n))"
proof (cases p)
  case Nil
  then show ?thesis by (simp add: render_def lookup_def enter_def node_at_def)
next
  case (Cons n ns)
  have ns: "\<forall>n\<in>set p. CHR ''/'' \<notin> set n"
    using assms by (auto simp: properPath_def properName_def list_all_iff)
  have r: "render p = [] @ concat (map (\<lambda>name. CHR ''/'' # name) p)"
    using Cons by (simp add: render_def)
  have s: "segments (render p) = [] # p"
    unfolding r using ns by (intro segments_render) auto
  have "IsAbs (render p)" "render p \<noteq> []" using Cons by (simp_all add: render_def)
  then have "lookup f c (render p) = namei f [] p"
    using s by (simp add: lookup_def namei_skip del: namei.simps)
  then show ?thesis
    using namei_proper_root [of p f] assms by (simp add: properPath_def)
qed

lemma cleanElem_fold_rooted:
  "''..'' \<notin> set acc \<Longrightarrow> ''..'' \<notin> set (foldl (cleanElem True) acc names)"
  by (induction names arbitrary: acc) (simp_all add: cleanElem_rooted)

lemma lookup_Clean:
  assumes "IsAbs p"
  shows "lookup f c (path_Clean p) =
           (case walk f [] (lexical c p) of Inl e \<Rightarrow> Inl e | Inr n \<Rightarrow> Inr (lexical c p, n))"
proof -
  define names where "names = rev (foldl (cleanElem True) [] (segments p))"
  have p: "p \<noteq> []" using assms by auto
  have cf: "foldl enter [] names = foldl enter [] (segments p)"
    and pl: "\<forall>x\<in>set names. plain x"
    using clean_fold [of "[]" True "[]" "segments p"] segments_names
    by (auto simp: names_def)
  have nd: "''..'' \<notin> set names"
    using cleanElem_fold_rooted [of "[]" "segments p"] by (simp add: names_def)
  have proper: "list_all properName names"
    using pl nd by (auto simp: list_all_iff plain_def properName_def)
  have lex: "lexical c p = names"
    using cf assms foldl_enter_proper [OF proper, of "[]"] by (simp add: lexical_def)
  have ns: "\<forall>n\<in>set names. CHR ''/'' \<notin> set n" using pl by (simp add: plain_def)
  have cl: "path_Clean p = CHR ''/'' # strings_Join names ''/''"
    using assms p by (simp add: path_Clean_def names_def Split_slash Let_def)
  have "namei f [] (segments (path_Clean p)) = namei f [] names"
  proof (cases "names = []")
    case True
    then show ?thesis by (simp add: cl strings_Join_def enter_def node_at_def)
  next
    case False
    have "segments (strings_Join names ''/'') = names" using False ns by (rule segments_Join)
    then have "segments (path_Clean p) = [] # names" by (simp add: cl)
    then show ?thesis by (simp add: namei_skip del: namei.simps)
  qed
  then have "lookup f c (path_Clean p) = namei f [] names"
    by (simp add: lookup_def cl)
  then show ?thesis
    unfolding lex using namei_proper_root [OF proper, of f] by simp
qed

lemma lookup_lexical: "lookup f c name = Inr (p, n) \<Longrightarrow> p = lexical c name \<and> name \<noteq> []"
  using namei_lexical [of f "if IsAbs name then [] else c" "segments name" p n]
  by (auto simp: lookup_def lexical_def split: if_splits)

lemma lookup_node: "lookup f c name = Inr (p, n) \<Longrightarrow> walk f [] p = Inr n"
  using namei_node [of f "if IsAbs name then [] else c" "segments name" p n]
  by (auto simp: lookup_def split: if_splits)

lemma Chdir_frame [simp]:
  "fs (snd (os_Chdir d w)) = fs w"
  "invoked (snd (os_Chdir d w)) = invoked w"
  "denied (snd (os_Chdir d w)) = denied w"
  by (auto simp: os_Chdir_def split: sum.splits node.splits)

lemma Chdir_cases:
  "os_Chdir dir w =
     (if fst (os_Chdir dir w) = None then (None, w\<lparr>cwd := lexical (cwd w) dir\<rparr>)
      else (fst (os_Chdir dir w), w))"
  by (auto simp: os_Chdir_def dest: lookup_lexical split: sum.splits node.splits)

lemma Chdir_None_iff:
  "fst (os_Chdir dir w) = None \<longleftrightarrow> stat (fs w) (cwd w) dir = Inr Dir"
  by (auto simp: os_Chdir_def stat_def split: sum.splits node.splits)

lemma Chdir_isDir:
  assumes "fst (os_Chdir dir w) = None"
  shows "dir \<noteq> [] \<and> isDir (fs w) (lexical (cwd w) dir)"
proof -
  from assms obtain p where p: "lookup (fs w) (cwd w) dir = Inr (p, Dir)"
    by (auto simp: os_Chdir_def split: sum.splits node.splits)
  from lookup_lexical [OF p] lookup_node [OF p] show ?thesis by (simp add: isDir_def)
qed

lemma Getwd_Inr: "os_Getwd w = Inr d \<Longrightarrow> isDir (fs w) (cwd w) \<and> d = render (cwd w)"
  by (auto simp: os_Getwd_def split: if_splits)

lemma Chdir_back:
  "properPath p \<Longrightarrow> isDir (fs w) p \<Longrightarrow> cwd (snd (os_Chdir (render p) w)) = p"
  by (simp add: os_Chdir_def lookup_render isDir_def)

lemma Chdir_entered:
  "fst (os_Chdir dir w) = None \<Longrightarrow> os_Chdir dir w = (None, w\<lparr>cwd := lexical (cwd w) dir\<rparr>)"
  using Chdir_cases [of dir w] by simp

lemma Chdir_refused:
  "fst (os_Chdir dir w) = Some e \<Longrightarrow> os_Chdir dir w = (Some e, w)"
  using Chdir_cases [of dir w] by simp

lemma Chdir_cwd:
  "fst (os_Chdir dir w) = None \<Longrightarrow> cwd (snd (os_Chdir dir w)) = lexical (cwd w) dir"
  using Chdir_entered [of dir w] by simp

lemma lexical_rooted: "IsAbs dir \<Longrightarrow> lexical c dir = lexical c' dir"
  by (simp add: lexical_def)

lemma exists_git:
  assumes "fst (os_Chdir dir w) = None" and "IsAbs dir"
  shows "exists (w\<lparr>cwd := lexical (cwd w) dir\<rparr>) (path_Join [dir, ''.git''])
           = (fs w (lexical (cwd w) dir @ [''.git'']) \<noteq> None)"
proof -
  let ?c = "lexical (cwd w) dir"
  have d: "dir \<noteq> []" "isDir (fs w) ?c"
    using assms(1) Chdir_isDir by blast+
  have j: "path_Join [dir, ''.git''] = path_Clean (dir @ CHR ''/'' # ''.git'')"
    using d(1) by (simp add: path_Join_def strings_Join_def)
  have a: "IsAbs (dir @ CHR ''/'' # ''.git'')" using assms(2) by (cases dir) auto
  have "segments ''.git'' = [''.git'']" by (simp add: segments_noslash)
  then have l: "lexical ?c (dir @ CHR ''/'' # ''.git'') = ?c @ [''.git'']"
    using d(1) lexical_rooted [OF assms(2), of ?c "cwd w"]
    by (simp add: lexical_append enter_def)
  have "lookup (fs w) ?c (path_Join [dir, ''.git''])
          = (case fs w (?c @ [''.git'']) of None \<Rightarrow> Inl ENOENT
             | Some x \<Rightarrow> Inr (?c @ [''.git''], x))"
    unfolding j lookup_Clean [OF a] l walk_entry [OF d(2)]
    by (simp split: option.splits)
  then show ?thesis
    by (auto simp: exists_def os_Stat_def stat_def split: option.splits)
qed

section \<open>The operations\<close>

lemma deferred_Chdir_frame [simp]:
  "fst (deferred_Chdir d r) = fst r"
  "fs (snd (deferred_Chdir d r)) = fs (snd r)"
  "invoked (snd (deferred_Chdir d r)) = invoked (snd r)"
  "denied (snd (deferred_Chdir d r)) = denied (snd r)"
  by (simp_all add: deferred_Chdir_def)

lemma render_nonempty: "render p \<noteq> []"
  by (cases p) (simp_all add: render_def)

lemma CombinedOutput_eq:
  "CombinedOutput run args w =
     (fst (run args (cwd w) (fs w)),
      w\<lparr>fs := snd (run args (cwd w) (fs w)),
        invoked := invoked w @
          [\<lparr>argv = args, wd = cwd w, files = fs w,
            combined = fst (fst (run args (cwd w) (fs w))),
            failure = snd (fst (run args (cwd w) (fs w)))\<rparr>]\<rparr>)"
  by (simp add: CombinedOutput_def split: prod.splits)

lemma Info_Some [simp]: "Info (Some e) = Returned ()"
  by (simp add: Info_def)

lemma Info_None [simp]: "Info None = Panicked NilDereference"
  by (simp add: Info_def)

text \<open>
  C9. \<open>GetRemoteOriginURL\<close> returns the error of \<open>os.Getwd\<close>, or else the error of
  \<open>os.Chdir\<close> into the folder (the folder does not exist, or is a file), each with an
  empty string and without starting a subprocess. Otherwise it runs
  \<open>git config --get remote.origin.url\<close> once, in the folder, and returns the combined
  output without the white space around it together with the error of the invocation,
  whatever the output says.
\<close>

theorem GetRemoteOriginURL_result:
  "case os_Getwd w of
     Inl e \<Rightarrow>
       fst (GetRemoteOriginURL run repoFolder w) = ([], Some e)
       \<and> invoked (snd (GetRemoteOriginURL run repoFolder w)) = invoked w
   | Inr d \<Rightarrow>
       (case fst (os_Chdir repoFolder w) of
          Some e \<Rightarrow>
            fst (GetRemoteOriginURL run repoFolder w) = ([], Some e)
            \<and> invoked (snd (GetRemoteOriginURL run repoFolder w)) = invoked w
        | None \<Rightarrow>
            (\<exists>c. invoked (snd (GetRemoteOriginURL run repoFolder w)) = invoked w @ [c]
               \<and> argv c = [''git'', ''config'', ''--get'', ''remote.origin.url'']
               \<and> wd c = cwd (snd (os_Chdir repoFolder w))
               \<and> files c = fs w
               \<and> (combined c, failure c) = fst (run (argv c) (wd c) (files c))
               \<and> fst (GetRemoteOriginURL run repoFolder w)
                   = (trimWhitespace (combined c), failure c)))"
proof (cases "os_Getwd w")
  case (Inl e)
  then show ?thesis by (simp add: GetRemoteOriginURL_def)
next
  case (Inr d)
  show ?thesis
  proof (cases "fst (os_Chdir repoFolder w)")
    case None
    then show ?thesis
      using Inr Chdir_entered [OF None]
      by (auto simp: GetRemoteOriginURL_def CombinedOutput_eq TrimSpace_trimWhitespace
          split: prod.splits)
  next
    case (Some e)
    then show ?thesis
      using Inr Chdir_refused [OF Some]
      by (simp add: GetRemoteOriginURL_def)
  qed
qed

lemma skipElement_spec:
  "skipElement p k \<le> k
   \<and> (\<forall>i. skipElement p k \<le> i \<and> i < k \<longrightarrow> p ! i \<noteq> CHR ''/'')
   \<and> (skipElement p k = 0 \<or> p ! (skipElement p k - 1) = CHR ''/'')"
proof (induction k)
  case 0
  then show ?case by simp
next
  case (Suc k)
  show ?case
  proof (cases "p ! k = CHR ''/''")
    case True
    then show ?thesis by auto
  next
    case False
    have "p ! i \<noteq> CHR ''/''" if "skipElement p k \<le> i" "i < Suc k" for i
      using that Suc False by (cases "i = k") auto
    with Suc False show ?thesis by auto
  qed
qed

lemma Split_parts:
  assumes "filepath_Split fp = (dir, name)"
  shows "fp = dir @ name \<and> CHR ''/'' \<notin> set name \<and> (dir = [] \<or> last dir = CHR ''/'')"
proof -
  define j where "j = skipElement fp (length fp)"
  have d: "dir = take j fp" "name = drop j fp"
    using assms by (simp_all add: filepath_Split_def j_def)
  have j: "j \<le> length fp" "\<forall>i. j \<le> i \<and> i < length fp \<longrightarrow> fp ! i \<noteq> CHR ''/''"
    "j = 0 \<or> fp ! (j - 1) = CHR ''/''"
    using skipElement_spec [of fp "length fp"] by (simp_all add: j_def)
  have "CHR ''/'' \<notin> set name"
  proof
    assume "CHR ''/'' \<in> set name"
    then obtain i where "i < length fp - j" "drop j fp ! i = CHR ''/''"
      unfolding d by (auto simp: in_set_conv_nth)
    then show False using j(1,2) by (auto simp: nth_drop)
  qed
  moreover have "dir = [] \<or> last dir = CHR ''/''"
  proof (cases "j = 0")
    case True
    then show ?thesis by (simp add: d)
  next
    case False
    then have "take j fp \<noteq> []" "length (take j fp) = j" using j(1) by auto
    then have "last (take j fp) = fp ! (j - 1)"
      using False by (simp add: last_conv_nth del: length_take)
    then show ?thesis using j(3) False by (simp add: d)
  qed
  ultimately show ?thesis by (simp add: d)
qed

lemma AddData_entered:
  assumes "os_Getwd w = Inr d" and "fst (os_Chdir (folder gr) w) = None" and "log gr = Some entry"
  shows "AddData run gr data fp w =
     deferred_Chdir d
       (case (if length (fst (filepath_Split fp)) > 0
              then os_MkdirAll (fst (filepath_Split fp)) 509 (snd (os_Chdir (folder gr) w))
              else (None, snd (os_Chdir (folder gr) w))) of
          (Some err, w2) \<Rightarrow> (Returned (Some err), w2)
        | (None, w2) \<Rightarrow>
            (case ioutil_WriteFile fp data 493 w2 of
               (Some err, w3) \<Rightarrow> (Returned (Some err), w3)
             | (None, w3) \<Rightarrow>
                 (case CombinedOutput run [''git'', ''add'', fp] w3 of
                    ((out1, err1), w4) \<Rightarrow>
                      (if bytes_Contains out1 ''error''
                       then (Returned (Some (ErrorString out1)), w4)
                       else (case CombinedOutput run
                               [''git'', ''commit'', ''-m'', ''Add '' @ snd (filepath_Split fp), fp] w4 of
                               ((out2, err2), w5) \<Rightarrow>
                                 (if bytes_Contains out2 ''error''
                                  then (Returned (Some (ErrorString out2)), w5)
                                  else (Returned err1, w5)))))))"
  using assms Chdir_entered [OF assms(2)]
  by (simp add: AddData_def split: prod.splits)

lemma AddData_early:
  "os_Getwd w = Inl e \<Longrightarrow> AddData run gr data fp w = (Returned (Some e), w)"
  "os_Getwd w = Inr d \<Longrightarrow> fst (os_Chdir (folder gr) w) = Some e \<Longrightarrow>
     AddData run gr data fp w = deferred_Chdir d (Returned (Some e), w)"
  "os_Getwd w = Inr d \<Longrightarrow> fst (os_Chdir (folder gr) w) = None \<Longrightarrow> log gr = None \<Longrightarrow>
     AddData run gr data fp w
       = deferred_Chdir d (Panicked NilDereference, snd (os_Chdir (folder gr) w))"
proof -
  show "os_Getwd w = Inl e \<Longrightarrow> AddData run gr data fp w = (Returned (Some e), w)"
    by (simp add: AddData_def)
  show "os_Getwd w = Inr d \<Longrightarrow> fst (os_Chdir (folder gr) w) = Some e \<Longrightarrow>
     AddData run gr data fp w = deferred_Chdir d (Returned (Some e), w)"
    using Chdir_refused [of "folder gr" w e] by (simp add: AddData_def)
  show "os_Getwd w = Inr d \<Longrightarrow> fst (os_Chdir (folder gr) w) = None \<Longrightarrow> log gr = None \<Longrightarrow>
     AddData run gr data fp w
       = deferred_Chdir d (Panicked NilDereference, snd (os_Chdir (folder gr) w))"
    using Chdir_entered [of "folder gr" w] by (simp add: AddData_def split: prod.splits)
qed

lemma prepared_frame:
  "cwd (snd (prepared data fp w)) = cwd w"
  "invoked (snd (prepared data fp w)) = invoked w"
proof -
  let ?dir = "fst (filepath_Split fp)"
  have a: "cwd (snd (os_MkdirAll ?dir 509 w)) = cwd w"
    "invoked (snd (os_MkdirAll ?dir 509 w)) = invoked w" by simp_all
  obtain e2 w2 where mk: "os_MkdirAll ?dir 509 w = (e2, w2)"
    by (cases "os_MkdirAll ?dir 509 w") auto
  have b: "cwd (snd (ioutil_WriteFile fp data 493 w2)) = cwd w2"
    "invoked (snd (ioutil_WriteFile fp data 493 w2)) = invoked w2"
    "cwd (snd (ioutil_WriteFile fp data 493 w)) = cwd w"
    "invoked (snd (ioutil_WriteFile fp data 493 w)) = invoked w" by simp_all
  show "cwd (snd (prepared data fp w)) = cwd w"
    using a b mk by (cases e2) (auto simp: prepared_def)
  show "invoked (snd (prepared data fp w)) = invoked w"
    using a b mk by (cases e2) (auto simp: prepared_def)
qed

lemma prepared_written:
  assumes "fst (prepared data fp w) = None"
  shows "stat (fs (snd (prepared data fp w))) (cwd w) fp = Inr (File data)"
    and "fst (filepath_Split fp) \<noteq> [] \<Longrightarrow>
         stat (fs (snd (prepared data fp w))) (cwd w) (fst (filepath_Split fp)) = Inr Dir"
proof -
  let ?dir = "fst (filepath_Split fp)"
  obtain e2 w2 where mk: "(if length ?dir > 0 then os_MkdirAll ?dir 509 w else (None, w)) = (e2, w2)"
    by (cases "(if length ?dir > 0 then os_MkdirAll ?dir 509 w else (None, w))") auto
  have e2: "e2 = None" using assms mk by (cases e2) (auto simp: prepared_def)
  have p: "prepared data fp w = ioutil_WriteFile fp data 493 w2"
    using mk e2 by (simp add: prepared_def)
  have c2: "cwd w2 = cwd w"
  proof (cases "length ?dir > 0")
    case True
    then have "w2 = snd (os_MkdirAll ?dir 509 w)" using mk by simp
    then show ?thesis by simp
  next
    case False
    then show ?thesis using mk by auto
  qed
  obtain w3 where wr: "ioutil_WriteFile fp data 493 w2 = (None, w3)"
    using assms p by (cases "ioutil_WriteFile fp data 493 w2") auto
  have c3: "cwd w3 = cwd w"
    using WriteFile_frame(1) [of fp data 493 w2] wr c2 by simp
  show "stat (fs (snd (prepared data fp w))) (cwd w) fp = Inr (File data)"
    using WriteFile_written [OF wr] p wr c3 by simp
  show "stat (fs (snd (prepared data fp w))) (cwd w) ?dir = Inr Dir" if "?dir \<noteq> []"
  proof -
    have "os_MkdirAll ?dir 509 w = (None, w2)" using mk e2 that by simp
    then have "stat (fs w2) (cwd w2) ?dir = Inr Dir" by (rule MkdirAll_made)
    then have "stat (fs (snd (ioutil_WriteFile fp data 493 w2))) (cwd w2) ?dir = Inr Dir"
      by (rule stat_Dir_mono) (rule WriteFile_keeps)
    then show ?thesis using p c2 by simp
  qed
qed

lemma AddData_prepared:
  assumes "os_Getwd w = Inr d" and "fst (os_Chdir (folder gr) w) = None" and "log gr = Some entry"
  shows "AddData run gr data fp w =
     deferred_Chdir d
       (case prepared data fp (snd (os_Chdir (folder gr) w)) of
          (Some err, w3) \<Rightarrow> (Returned (Some err), w3)
        | (None, w3) \<Rightarrow>
            (case CombinedOutput run [''git'', ''add'', fp] w3 of
               ((out1, err1), w4) \<Rightarrow>
                 (if bytes_Contains out1 ''error''
                  then (Returned (Some (ErrorString out1)), w4)
                  else (case CombinedOutput run
                          [''git'', ''commit'', ''-m'', ''Add '' @ snd (filepath_Split fp), fp] w4 of
                          ((out2, err2), w5) \<Rightarrow>
                            (if bytes_Contains out2 ''error''
                             then (Returned (Some (ErrorString out2)), w5)
                             else (Returned err1, w5))))))"
proof -
  let ?w1 = "snd (os_Chdir (folder gr) w)"
  let ?dir = "fst (filepath_Split fp)"
  obtain e2 w2 where mk: "(if length ?dir > 0 then os_MkdirAll ?dir 509 ?w1 else (None, ?w1)) = (e2, w2)"
    by (cases "(if length ?dir > 0 then os_MkdirAll ?dir 509 ?w1 else (None, ?w1))") auto
  show ?thesis
  proof (cases e2)
    case None
    obtain e3 w3 where wr: "ioutil_WriteFile fp data 493 w2 = (e3, w3)"
      by (cases "ioutil_WriteFile fp data 493 w2") auto
    have "prepared data fp ?w1 = (e3, w3)"
      using mk None wr by (simp add: prepared_def)
    then show ?thesis
      unfolding AddData_entered [OF assms] mk using None wr by (cases e3) simp_all
  next
    case (Some e)
    have "prepared data fp ?w1 = (Some e, w2)"
      using mk Some by (simp add: prepared_def)
    then show ?thesis
      unfolding AddData_entered [OF assms] mk using Some by simp
  qed
qed

lemma AddData_not_prepared:
  assumes "os_Getwd w = Inr d" and "fst (os_Chdir (folder gr) w) = None" and "log gr = Some entry"
    and "fst (prepared data fp (snd (os_Chdir (folder gr) w))) = Some e"
  shows "fst (AddData run gr data fp w) = Returned (Some e)"
    and "invoked (snd (AddData run gr data fp w)) = invoked w"
  using assms(4) prepared_frame(2) [of data fp "snd (os_Chdir (folder gr) w)"]
  unfolding AddData_prepared [OF assms(1-3)]
  by (auto split: prod.splits option.splits)

lemma AddData_ran:
  assumes "os_Getwd w = Inr d" and "fst (os_Chdir (folder gr) w) = None" and "log gr = Some entry"
    and "fst (prepared data fp (snd (os_Chdir (folder gr) w))) = None"
  shows "\<exists>c1 rest.
           invoked (snd (AddData run gr data fp w)) = invoked w @ c1 # rest
         \<and> argv c1 = [''git'', ''add'', fp]
         \<and> wd c1 = cwd (snd (os_Chdir (folder gr) w))
         \<and> files c1 = fs (snd (prepared data fp (snd (os_Chdir (folder gr) w))))
         \<and> (combined c1, failure c1) = fst (run (argv c1) (wd c1) (files c1))
         \<and> (bytes_Contains (combined c1) ''error'' \<longrightarrow>
              rest = []
              \<and> fst (AddData run gr data fp w) = Returned (Some (ErrorString (combined c1)))
              \<and> fs (snd (AddData run gr data fp w)) = snd (run (argv c1) (wd c1) (files c1)))
         \<and> (\<not> bytes_Contains (combined c1) ''error'' \<longrightarrow>
              (\<exists>c2. rest = [c2]
                 \<and> argv c2 = [''git'', ''commit'', ''-m'', ''Add '' @ snd (filepath_Split fp), fp]
                 \<and> wd c2 = cwd (snd (os_Chdir (folder gr) w))
                 \<and> files c2 = snd (run (argv c1) (wd c1) (files c1))
                 \<and> (combined c2, failure c2) = fst (run (argv c2) (wd c2) (files c2))
                 \<and> fst (AddData run gr data fp w) =
                     Returned (if bytes_Contains (combined c2) ''error''
                               then Some (ErrorString (combined c2))
                               else failure c1)))"
proof -
  let ?w1 = "snd (os_Chdir (folder gr) w)"
  obtain w3 where p: "prepared data fp ?w1 = (None, w3)"
    using assms(4) by (cases "prepared data fp ?w1") auto
  have f: "cwd w3 = cwd ?w1" "invoked w3 = invoked w"
    using prepared_frame [of data fp ?w1] p by simp_all
  show ?thesis
    unfolding AddData_prepared [OF assms(1-3)] p
    using f by (auto simp: CombinedOutput_eq split: prod.splits)
qed

lemma AddData_untouched:
  assumes "invoked (snd (AddData run gr data fp w)) \<noteq> invoked w"
  shows "\<exists>d entry. os_Getwd w = Inr d \<and> fst (os_Chdir (folder gr) w) = None
           \<and> log gr = Some entry \<and> fst (prepared data fp (snd (os_Chdir (folder gr) w))) = None"
proof (cases "os_Getwd w")
  case (Inl e)
  then show ?thesis using assms AddData_early(1) [of w e run gr data fp] by simp
next
  case (Inr d)
  show ?thesis
  proof (cases "fst (os_Chdir (folder gr) w)")
    case (Some e)
    then show ?thesis using assms AddData_early(2) [OF Inr Some, of run data fp] by simp
  next
    case None
    show ?thesis
    proof (cases "log gr")
      case nil: None
      then show ?thesis using assms AddData_early(3) [OF Inr None nil, of run data fp] by simp
    next
      case (Some entry)
      show ?thesis
      proof (cases "fst (prepared data fp (snd (os_Chdir (folder gr) w)))")
        case ok: None
        then show ?thesis using Inr None Some by simp
      next
        case (Some e)
        then show ?thesis
          using assms AddData_not_prepared(2) [OF Inr None \<open>log gr = Some entry\<close> Some, of run]
          by simp
      qed
    qed
  qed
qed


lemma AddData_two_steps:
  assumes "invoked (snd (AddData run gr data fp w)) = invoked w @ c1 # rest"
    and "\<not> bytes_Contains (combined c1) ''error''"
  shows "(combined c1, failure c1) = fst (run (argv c1) (wd c1) (files c1))
       \<and> (\<exists>c2. rest = [c2]
           \<and> argv c2 = [''git'', ''commit'', ''-m'', ''Add '' @ snd (filepath_Split fp), fp]
           \<and> wd c2 = wd c1
           \<and> (combined c2, failure c2) = fst (run (argv c2) (wd c2) (files c2))
           \<and> fst (AddData run gr data fp w) =
               Returned (if bytes_Contains (combined c2) ''error''
                         then Some (ErrorString (combined c2))
                         else failure c1))"
proof -
  let ?w1 = "snd (os_Chdir (folder gr) w)"
  have "invoked (snd (AddData run gr data fp w)) \<noteq> invoked w" using assms(1) by simp
  then obtain d entry where r: "os_Getwd w = Inr d" "fst (os_Chdir (folder gr) w) = None"
      "log gr = Some entry" "fst (prepared data fp ?w1) = None"
    using AddData_untouched [of run gr data fp w] by auto
  from AddData_ran [OF r, of run] obtain c rest' where c:
    "invoked (snd (AddData run gr data fp w)) = invoked w @ c # rest'
     \<and> argv c = [''git'', ''add'', fp]
     \<and> wd c = cwd ?w1
     \<and> files c = fs (snd (prepared data fp ?w1))
     \<and> (combined c, failure c) = fst (run (argv c) (wd c) (files c))
     \<and> (bytes_Contains (combined c) ''error'' \<longrightarrow>
              rest' = []
              \<and> fst (AddData run gr data fp w) = Returned (Some (ErrorString (combined c)))
              \<and> fs (snd (AddData run gr data fp w)) = snd (run (argv c) (wd c) (files c)))
     \<and> (\<not> bytes_Contains (combined c) ''error'' \<longrightarrow>
              (\<exists>c2. rest' = [c2]
                 \<and> argv c2 = [''git'', ''commit'', ''-m'', ''Add '' @ snd (filepath_Split fp), fp]
                 \<and> wd c2 = cwd ?w1
                 \<and> files c2 = snd (run (argv c) (wd c) (files c))
                 \<and> (combined c2, failure c2) = fst (run (argv c2) (wd c2) (files c2))
                 \<and> fst (AddData run gr data fp w) =
                     Returned (if bytes_Contains (combined c2) ''error''
                               then Some (ErrorString (combined c2))
                               else failure c)))"
    by (elim exE)
  have eq: "c = c1" "rest' = rest" using c assms(1) by simp_all
  have w: "wd c = cwd ?w1" using c by simp
  note commit = c [THEN conjunct2, THEN conjunct2, THEN conjunct2, THEN conjunct2,
      THEN conjunct2, THEN conjunct2]
  have "\<not> bytes_Contains (combined c) ''error''" using assms(2) eq(1) by simp
  with commit have "\<exists>c2. rest' = [c2]
                 \<and> argv c2 = [''git'', ''commit'', ''-m'', ''Add '' @ snd (filepath_Split fp), fp]
                 \<and> wd c2 = cwd ?w1
                 \<and> files c2 = snd (run (argv c) (wd c) (files c))
                 \<and> (combined c2, failure c2) = fst (run (argv c2) (wd c2) (files c2))
                 \<and> fst (AddData run gr data fp w) =
                     Returned (if bytes_Contains (combined c2) ''error''
                               then Some (ErrorString (combined c2))
                               else failure c)"
    by (rule mp)
  then obtain c2 where c2: "rest' = [c2]"
      "argv c2 = [''git'', ''commit'', ''-m'', ''Add '' @ snd (filepath_Split fp), fp]"
      "wd c2 = cwd ?w1"
      "files c2 = snd (run (argv c) (wd c) (files c))"
      "(combined c2, failure c2) = fst (run (argv c2) (wd c2) (files c2))"
      "fst (AddData run gr data fp w) =
                     Returned (if bytes_Contains (combined c2) ''error''
                               then Some (ErrorString (combined c2))
                               else failure c)"
    by (elim exE conjE)
  have "(combined c, failure c) = fst (run (argv c) (wd c) (files c))" using c by simp
  then show ?thesis
    using c2 eq w by (intro conjI exI [of _ c2]) simp_all
qed


lemma Push_early:
  "os_Getwd w = Inl e \<Longrightarrow> Push run gr w = (Returned (Some e), w)"
  "os_Getwd w = Inr d \<Longrightarrow> fst (os_Chdir (folder gr) w) = Some e \<Longrightarrow>
     Push run gr w = deferred_Chdir d (Returned (Some e), w)"
  "os_Getwd w = Inr d \<Longrightarrow> fst (os_Chdir (folder gr) w) = None \<Longrightarrow> log gr = None \<Longrightarrow>
     Push run gr w
       = deferred_Chdir d (Panicked NilDereference, snd (os_Chdir (folder gr) w))"
proof -
  show "os_Getwd w = Inl e \<Longrightarrow> Push run gr w = (Returned (Some e), w)"
    by (simp add: Push_def)
  show "os_Getwd w = Inr d \<Longrightarrow> fst (os_Chdir (folder gr) w) = Some e \<Longrightarrow>
     Push run gr w = deferred_Chdir d (Returned (Some e), w)"
    using Chdir_refused [of "folder gr" w e] by (simp add: Push_def)
  show "os_Getwd w = Inr d \<Longrightarrow> fst (os_Chdir (folder gr) w) = None \<Longrightarrow> log gr = None \<Longrightarrow>
     Push run gr w
       = deferred_Chdir d (Panicked NilDereference, snd (os_Chdir (folder gr) w))"
    using Chdir_entered [of "folder gr" w] by (simp add: Push_def)
qed

lemma Push_ran:
  assumes "os_Getwd w = Inr d" and "fst (os_Chdir (folder gr) w) = None" and "log gr = Some entry"
  shows "\<exists>c. invoked (snd (Push run gr w)) = invoked w @ [c]
           \<and> argv c = [''git'', ''push'', ''origin'', ''master'']
           \<and> wd c = cwd (snd (os_Chdir (folder gr) w))
           \<and> (combined c, failure c) = fst (run (argv c) (wd c) (files c))
           \<and> fst (Push run gr w) =
               Returned (if bytes_Contains (combined c) ''error''
                         then Some (ErrorString (combined c)) else failure c)"
  using assms(1,3) Chdir_entered [OF assms(2)]
  by (auto simp: Push_def CombinedOutput_eq split: prod.splits)

lemma Push_untouched:
  assumes "invoked (snd (Push run gr w)) \<noteq> invoked w"
  shows "\<exists>d entry. os_Getwd w = Inr d \<and> fst (os_Chdir (folder gr) w) = None \<and> log gr = Some entry"
proof (cases "os_Getwd w")
  case (Inl e)
  then show ?thesis using assms Push_early(1) [of w e run gr] by simp
next
  case (Inr d)
  show ?thesis
  proof (cases "fst (os_Chdir (folder gr) w)")
    case (Some e)
    then show ?thesis using assms Push_early(2) [OF Inr Some, of run] by simp
  next
    case None
    show ?thesis
    proof (cases "log gr")
      case nil: None
      then show ?thesis using assms Push_early(3) [OF Inr None nil, of run] by simp
    next
      case (Some entry)
      then show ?thesis using Inr None by simp
    qed
  qed
qed

text \<open>
  C2, as amended. The error of the \<open>push\<close> invocation and the error of the \<open>add\<close>
  invocation are not superseded: when \<open>Push\<close> has run its subprocess and the output has
  no \<open>"error"\<close>, it returns the error of that invocation; when \<open>AddData\<close> has run
  \<open>add\<close> and \<open>commit\<close> and neither output has \<open>"error"\<close>, it returns the error of
  the \<open>add\<close> invocation. Only the error of the \<open>commit\<close> invocation is dropped.
\<close>

theorem invocation_error_returned:
  "(invoked (snd (Push run gr w)) = invoked w @ [c] \<longrightarrow>
      (combined c, failure c) = fst (run (argv c) (wd c) (files c))
      \<and> fst (Push run gr w) =
        Returned (if bytes_Contains (combined c) ''error''
                  then Some (ErrorString (combined c)) else failure c))
   \<and> (invoked (snd (AddData run gr data fp w)) = invoked w @ [c1, c2] \<longrightarrow>
      (combined c1, failure c1) = fst (run (argv c1) (wd c1) (files c1))
      \<and> (combined c2, failure c2) = fst (run (argv c2) (wd c2) (files c2))
      \<and> fst (AddData run gr data fp w) =
        Returned (if bytes_Contains (combined c2) ''error'' then Some (ErrorString (combined c2))
                  else failure c1))"
proof (rule conjI; rule impI)
  assume a: "invoked (snd (Push run gr w)) = invoked w @ [c]"
  then have "invoked (snd (Push run gr w)) \<noteq> invoked w" by simp
  then obtain d entry where "os_Getwd w = Inr d" "fst (os_Chdir (folder gr) w) = None"
    "log gr = Some entry"
    using Push_untouched by blast
  from Push_ran [OF this, of run] a
  show "(combined c, failure c) = fst (run (argv c) (wd c) (files c))
      \<and> fst (Push run gr w) =
        Returned (if bytes_Contains (combined c) ''error''
                  then Some (ErrorString (combined c)) else failure c)"
    by auto
next
  assume a: "invoked (snd (AddData run gr data fp w)) = invoked w @ [c1, c2]"
  show "(combined c1, failure c1) = fst (run (argv c1) (wd c1) (files c1))
      \<and> (combined c2, failure c2) = fst (run (argv c2) (wd c2) (files c2))
      \<and> fst (AddData run gr data fp w) =
        Returned (if bytes_Contains (combined c2) ''error'' then Some (ErrorString (combined c2))
                  else failure c1)"
  proof (cases "bytes_Contains (combined c1) ''error''")
    case True
    have "invoked (snd (AddData run gr data fp w)) \<noteq> invoked w" using a by simp
    then obtain d entry where r: "os_Getwd w = Inr d" "fst (os_Chdir (folder gr) w) = None"
      "log gr = Some entry" "fst (prepared data fp (snd (os_Chdir (folder gr) w))) = None"
      using AddData_untouched [of run gr data fp w] by auto
    from AddData_ran [OF r, of run] a True show ?thesis by auto
  next
    case False
    from AddData_two_steps [of run gr data fp w c1 "[c2]"] a False show ?thesis by simp
  qed
qed


lemma exists_git_entered:
  assumes "fst (os_Chdir dir w) = None" and "IsAbs dir"
  shows "exists (snd (os_Chdir dir w)) (path_Join [dir, ''.git''])
           = (fs w (cwd (snd (os_Chdir dir w)) @ [''.git'']) \<noteq> None)"
  using exists_git [OF assms] Chdir_entered [OF assms(1)] by simp

lemma Update_ran:
  assumes "os_Getwd w = Inr d" and "fst (os_Chdir (folder gr) w) = None" and "log gr = Some entry"
  shows "\<exists>c. invoked (snd (Update run gr w)) = invoked w @ [c]
           \<and> wd c = cwd (snd (os_Chdir (folder gr) w))
           \<and> files c = fs w
           \<and> (combined c, failure c) = fst (run (argv c) (wd c) (files c))
           \<and> argv c = (if exists (snd (os_Chdir (folder gr) w))
                               (path_Join [folder gr, ''.git''])
                       then [''git'', ''pull'', ''--rebase'', ''origin'', ''master'']
                       else [''git'', ''clone'', repo gr, ''.''])
           \<and> fst (Update run gr w) =
               Returned (if bytes_Contains (combined c) ''fatal''
                         then Some (ErrorString (''Could not '' @ argv c ! 1 @ '' repo''))
                         else failure c)"
  using assms(1,3) Chdir_entered [OF assms(2)]
  by (auto simp: Update_def CombinedOutput_eq split: prod.splits)

text \<open>
  C4. When \<open>Update\<close> on a handle with an absolute folder gets past \<open>os.Getwd\<close>,
  \<open>os.Chdir\<close> into the folder and the first logging call, it runs one subprocess, in
  the folder: \<open>git clone <repo> .\<close> when the folder has no entry \<open>.git\<close>, and
  \<open>git pull --rebase origin master\<close> when it has one.
\<close>

theorem Update_clone_or_pull:
  assumes "os_Getwd w = Inr d" and "fst (os_Chdir (folder gr) w) = None" and "log gr = Some entry"
    and "IsAbs (folder gr)"
  shows "\<exists>c. invoked (snd (Update run gr w)) = invoked w @ [c]
           \<and> wd c = cwd (snd (os_Chdir (folder gr) w))
           \<and> argv c = (if fs w (cwd (snd (os_Chdir (folder gr) w)) @ [''.git'']) = None
                       then [''git'', ''clone'', repo gr, ''.'']
                       else [''git'', ''pull'', ''--rebase'', ''origin'', ''master''])"
  using Update_ran [OF assms(1-3), of run] exists_git_entered [OF assms(2,4)] by auto

text \<open>
  C1, as amended. When \<open>Update\<close> gets to start the subprocess, it runs one, a clone or a
  pull, and returns the error \<open>"Could not clone repo"\<close> or \<open>"Could not pull repo"\<close>
  (the mode it ran) when the combined output contains \<open>"fatal"\<close>, and otherwise the
  error of the invocation, unchanged: without \<open>"fatal"\<close> in the output \<open>Update\<close> succeeds
  only if the invocation did, and a non-zero exit status is returned as the error.
\<close>

theorem Update_result:
  assumes "os_Getwd w = Inr d" and "fst (os_Chdir (folder gr) w) = None" and "log gr = Some entry"
  shows "\<exists>c. invoked (snd (Update run gr w)) = invoked w @ [c]
           \<and> (argv c ! 1 = ''clone'' \<or> argv c ! 1 = ''pull'')
           \<and> (combined c, failure c) = fst (run (argv c) (wd c) (files c))
           \<and> fst (Update run gr w) =
               Returned (if bytes_Contains (combined c) ''fatal''
                         then Some (ErrorString (''Could not '' @ argv c ! 1 @ '' repo''))
                         else failure c)"
proof -
  from Update_ran [OF assms, of run] obtain c where c:
    "invoked (snd (Update run gr w)) = invoked w @ [c]"
    "(combined c, failure c) = fst (run (argv c) (wd c) (files c))"
    "argv c = (if exists (snd (os_Chdir (folder gr) w))
                               (path_Join [folder gr, ''.git''])
                       then [''git'', ''pull'', ''--rebase'', ''origin'', ''master'']
                       else [''git'', ''clone'', repo gr, ''.''])"
    "fst (Update run gr w) =
               Returned (if bytes_Contains (combined c) ''fatal''
                         then Some (ErrorString (''Could not '' @ argv c ! 1 @ '' repo''))
                         else failure c)"
    by blast
  have "argv c ! 1 = ''clone'' \<or> argv c ! 1 = ''pull''" using c(3) by simp
  with c(1,2,4) show ?thesis by blast
qed

text \<open>
  C7. When \<open>Push\<close> gets past \<open>os.Getwd\<close>, \<open>os.Chdir\<close> into the folder and the logging
  call, it runs one subprocess, \<open>git push origin master\<close>, in the folder; if the
  combined output contains \<open>"error"\<close>, \<open>Push\<close> returns an error whose message is
  that output.
\<close>

theorem Push_origin_master:
  assumes "os_Getwd w = Inr d" and "fst (os_Chdir (folder gr) w) = None" and "log gr = Some entry"
  shows "\<exists>c. invoked (snd (Push run gr w)) = invoked w @ [c]
           \<and> argv c = [''git'', ''push'', ''origin'', ''master'']
           \<and> wd c = cwd (snd (os_Chdir (folder gr) w))
           \<and> (combined c, failure c) = fst (run (argv c) (wd c) (files c))
           \<and> (bytes_Contains (combined c) ''error'' \<longrightarrow>
                fst (Push run gr w) = Returned (Some (ErrorString (combined c))))"
  using Push_ran [OF assms, of run] by auto

lemma New_logger:
  "fst (New url opt w) = Returned (gr, err) \<Longrightarrow>
   (err \<noteq> None \<longrightarrow> logger gr = None \<and> log gr = None)
   \<and> (err = None \<longrightarrow> logger gr = Some \<lparr>Level = WarnLevel\<rparr> \<and> log gr \<noteq> None)"
  by (auto simp: New_def Let_def WithFields_def SetLevel_def logrus_New_def
      split: outcome.splits prod.splits option.splits if_splits)

lemma Update_early:
  "os_Getwd w = Inl e \<Longrightarrow> Update run gr w = (Returned (Some e), w)"
  "os_Getwd w = Inr d \<Longrightarrow> fst (os_Chdir (folder gr) w) = Some e \<Longrightarrow>
     Update run gr w = deferred_Chdir d (Returned (Some e), w)"
  "os_Getwd w = Inr d \<Longrightarrow> fst (os_Chdir (folder gr) w) = None \<Longrightarrow> log gr = None \<Longrightarrow>
     Update run gr w
       = deferred_Chdir d (Panicked NilDereference, snd (os_Chdir (folder gr) w))"
proof -
  show "os_Getwd w = Inl e \<Longrightarrow> Update run gr w = (Returned (Some e), w)"
    by (simp add: Update_def)
  show "os_Getwd w = Inr d \<Longrightarrow> fst (os_Chdir (folder gr) w) = Some e \<Longrightarrow>
     Update run gr w = deferred_Chdir d (Returned (Some e), w)"
    using Chdir_refused [of "folder gr" w e] by (simp add: Update_def)
  show "os_Getwd w = Inr d \<Longrightarrow> fst (os_Chdir (folder gr) w) = None \<Longrightarrow> log gr = None \<Longrightarrow>
     Update run gr w
       = deferred_Chdir d (Panicked NilDereference, snd (os_Chdir (folder gr) w))"
    using Chdir_entered [of "folder gr" w] by (simp add: Update_def)
qed

lemma Update_nil:
  assumes "log gr = None"
  shows "fst (Update run gr w) =
         (case os_Getwd w of
            Inl e \<Rightarrow> Returned (Some e)
          | Inr d \<Rightarrow>
              (case fst (os_Chdir (folder gr) w) of
                 Some e \<Rightarrow> Returned (Some e)
               | None \<Rightarrow> Panicked NilDereference))"
proof (cases "os_Getwd w")
  case (Inl e)
  then show ?thesis using Update_early(1) [OF Inl, of run gr] by simp
next
  case (Inr d)
  show ?thesis
  proof (cases "fst (os_Chdir (folder gr) w)")
    case None
    then show ?thesis
      using Update_early(3) [OF Inr None assms, of run] Inr by simp
  next
    case (Some e)
    then show ?thesis
      using Update_early(2) [OF Inr Some, of run] Inr by simp
  qed
qed

lemma Push_nil:
  assumes "log gr = None"
  shows "fst (Push run gr w) =
         (case os_Getwd w of
            Inl e \<Rightarrow> Returned (Some e)
          | Inr d \<Rightarrow>
              (case fst (os_Chdir (folder gr) w) of
                 Some e \<Rightarrow> Returned (Some e)
               | None \<Rightarrow> Panicked NilDereference))"
proof (cases "os_Getwd w")
  case (Inl e)
  then show ?thesis using Push_early(1) [OF Inl, of run gr] by simp
next
  case (Inr d)
  show ?thesis
  proof (cases "fst (os_Chdir (folder gr) w)")
    case None
    then show ?thesis
      using Push_early(3) [OF Inr None assms, of run] Inr by simp
  next
    case (Some e)
    then show ?thesis
      using Push_early(2) [OF Inr Some, of run] Inr by simp
  qed
qed

lemma AddData_nil:
  assumes "log gr = None"
  shows "fst (AddData run gr data fp w) =
         (case os_Getwd w of
            Inl e \<Rightarrow> Returned (Some e)
          | Inr d \<Rightarrow>
              (case fst (os_Chdir (folder gr) w) of
                 Some e \<Rightarrow> Returned (Some e)
               | None \<Rightarrow> Panicked NilDereference))"
proof (cases "os_Getwd w")
  case (Inl e)
  then show ?thesis using AddData_early(1) [OF Inl, of run gr data fp] by simp
next
  case (Inr d)
  show ?thesis
  proof (cases "fst (os_Chdir (folder gr) w)")
    case None
    then show ?thesis
      using AddData_early(3) [OF Inr None assms, of run data fp] Inr by simp
  next
    case (Some e)
    then show ?thesis
      using AddData_early(2) [OF Inr Some, of run data fp] Inr by simp
  qed
qed

text \<open>
  C10, as amended. When \<open>New\<close> returns an error, the handle it returns has a nil logger
  and a nil log entry; when it returns no error, both are set. \<open>Debug\<close> on a handle with
  a nil logger panics with a nil dereference. \<open>Update\<close>, \<open>Push\<close> and \<open>AddData\<close> on a
  handle with a nil log entry return the error of \<open>os.Getwd\<close> or of \<open>os.Chdir\<close> into
  the folder when one of them fails, before any use of the log entry, and panic with a
  nil dereference only when both succeed.
\<close>

theorem nil_logger:
  "(fst (New url opt w) = Returned (gr, Some e) \<longrightarrow> logger gr = None \<and> log gr = None)
   \<and> (fst (New url opt w) = Returned (gr, None) \<longrightarrow> logger gr \<noteq> None \<and> log gr \<noteq> None)
   \<and> (logger gr = None \<longrightarrow> Debug on gr = Panicked NilDereference)
   \<and> (log gr = None \<longrightarrow>
        fst (Update run gr w) =
         (case os_Getwd w of
            Inl e \<Rightarrow> Returned (Some e)
          | Inr d \<Rightarrow>
              (case fst (os_Chdir (folder gr) w) of
                 Some e \<Rightarrow> Returned (Some e)
               | None \<Rightarrow> Panicked NilDereference))
      \<and> fst (Push run gr w) = fst (Update run gr w)
      \<and> fst (AddData run gr data fp w) = fst (Update run gr w))"
proof (intro conjI impI)
  assume "fst (New url opt w) = Returned (gr, Some e)"
  from New_logger [OF this] show "logger gr = None" "log gr = None" by simp_all
next
  assume "fst (New url opt w) = Returned (gr, None)"
  from New_logger [OF this] show "logger gr \<noteq> None" "log gr \<noteq> None" by simp_all
next
  assume "logger gr = None"
  then show "Debug on gr = Panicked NilDereference"
    by (simp add: Debug_def SetLevel_def)
next
  assume nil: "log gr = None"
  show "fst (Update run gr w) =
         (case os_Getwd w of
            Inl e \<Rightarrow> Returned (Some e)
          | Inr d \<Rightarrow>
              (case fst (os_Chdir (folder gr) w) of
                 Some e \<Rightarrow> Returned (Some e)
               | None \<Rightarrow> Panicked NilDereference))"
    using nil by (rule Update_nil)
  show "fst (Push run gr w) = fst (Update run gr w)"
    using Push_nil [OF nil, of run w] Update_nil [OF nil, of run w] by simp
  show "fst (AddData run gr data fp w) = fst (Update run gr w)"
    using AddData_nil [OF nil, of run data fp w] Update_nil [OF nil, of run w] by simp
qed

lemma deferred_restores:
  "properPath p \<Longrightarrow> isDir (fs (snd r)) p \<Longrightarrow> cwd (snd (deferred_Chdir (render p) r)) = p"
  by (simp add: deferred_Chdir_def Chdir_back)

lemma CombinedOutput_keeps:
  assumes "\<And>args d f. isDir f q \<Longrightarrow> isDir (snd (run args d f)) q" and "isDir (fs w) q"
  shows "isDir (fs (snd (CombinedOutput run args w))) q"
  using assms by (simp add: CombinedOutput_eq)

lemma prepared_keeps:
  assumes "isDir (fs w) q"
  shows "isDir (fs (snd (prepared data fp (snd (os_Chdir (folder gr) w))))) q"
proof -
  let ?w1 = "snd (os_Chdir (folder gr) w)"
  let ?dir = "fst (filepath_Split fp)"
  have a: "isDir (fs ?w1) q" using assms by simp
  obtain e2 w2 where mk: "(if length ?dir > 0 then os_MkdirAll ?dir 509 ?w1 else (None, ?w1)) = (e2, w2)"
    by (cases "(if length ?dir > 0 then os_MkdirAll ?dir 509 ?w1 else (None, ?w1))") auto
  have w2: "isDir (fs w2) q"
  proof (cases "length ?dir > 0")
    case True
    then have "w2 = snd (os_MkdirAll ?dir 509 ?w1)" using mk by simp
    then show ?thesis using MkdirAll_keeps_Dir [OF a] by simp
  next
    case False
    then show ?thesis using mk a by auto
  qed
  show ?thesis
  proof (cases e2)
    case None
    then have "prepared data fp (snd (os_Chdir (folder gr) w)) = ioutil_WriteFile fp data 493 w2"
      using mk by (simp add: prepared_def)
    then show ?thesis using WriteFile_keeps_Dir [OF w2] by simp
  next
    case (Some e)
    then have "prepared data fp (snd (os_Chdir (folder gr) w)) = (Some e, w2)" using mk by (simp add: prepared_def)
    then show ?thesis using w2 by simp
  qed
qed

lemma Update_keeps:
  assumes k: "\<And>args d f. isDir f q \<Longrightarrow> isDir (snd (run args d f)) q" and d: "isDir (fs w) q"
  shows "isDir (fs (snd (Update run gr w))) q"
proof (cases "os_Getwd w")
  case (Inl e)
  then show ?thesis using d Update_early(1) [OF Inl, of run gr] by simp
next
  case (Inr d0)
  show ?thesis
  proof (cases "fst (os_Chdir (folder gr) w)")
    case (Some e)
    then show ?thesis using d Update_early(2) [OF Inr Some, of run] by simp
  next
    case None
    show ?thesis
    proof (cases "log gr")
      case nil: None
      then show ?thesis using d Update_early(3) [OF Inr None nil, of run] by simp
    next
      case (Some entry)
      have "isDir (fs (snd (CombinedOutput run args (snd (os_Chdir (folder gr) w))))) q"
        for args
        using k d by (intro CombinedOutput_keeps) simp_all
      then show ?thesis
        using Inr Some Chdir_entered [OF None]
        by (simp add: Update_def case_prod_beta)
    qed
  qed
qed

lemma Push_keeps:
  assumes k: "\<And>args d f. isDir f q \<Longrightarrow> isDir (snd (run args d f)) q" and d: "isDir (fs w) q"
  shows "isDir (fs (snd (Push run gr w))) q"
proof (cases "os_Getwd w")
  case (Inl e)
  then show ?thesis using d Push_early(1) [OF Inl, of run gr] by simp
next
  case (Inr d0)
  show ?thesis
  proof (cases "fst (os_Chdir (folder gr) w)")
    case (Some e)
    then show ?thesis using d Push_early(2) [OF Inr Some, of run] by simp
  next
    case None
    show ?thesis
    proof (cases "log gr")
      case nil: None
      then show ?thesis using d Push_early(3) [OF Inr None nil, of run] by simp
    next
      case (Some entry)
      have "isDir (fs (snd (CombinedOutput run args (snd (os_Chdir (folder gr) w))))) q"
        for args
        using k d by (intro CombinedOutput_keeps) simp_all
      then show ?thesis
        using Inr Some Chdir_entered [OF None]
        by (simp add: Push_def case_prod_beta)
    qed
  qed
qed

lemma GetRemoteOriginURL_keeps:
  assumes k: "\<And>args d f. isDir f q \<Longrightarrow> isDir (snd (run args d f)) q" and d: "isDir (fs w) q"
  shows "isDir (fs (snd (GetRemoteOriginURL run repoFolder w))) q"
proof (cases "os_Getwd w")
  case (Inl e)
  then show ?thesis using d by (simp add: GetRemoteOriginURL_def)
next
  case (Inr d0)
  show ?thesis
  proof (cases "fst (os_Chdir repoFolder w)")
    case (Some e)
    then show ?thesis using d Inr Chdir_refused [OF Some] by (simp add: GetRemoteOriginURL_def)
  next
    case None
    have "isDir (fs (snd (CombinedOutput run args (snd (os_Chdir repoFolder w))))) q"
      for args
      using k d by (intro CombinedOutput_keeps) simp_all
    then show ?thesis
      using Inr Chdir_entered [OF None]
      by (simp add: GetRemoteOriginURL_def case_prod_beta)
  qed
qed

lemma AddData_keeps:
  assumes k: "\<And>args d f. isDir f q \<Longrightarrow> isDir (snd (run args d f)) q" and d: "isDir (fs w) q"
  shows "isDir (fs (snd (AddData run gr data fp w))) q"
proof (cases "os_Getwd w")
  case (Inl e)
  then show ?thesis using d AddData_early(1) [OF Inl, of run gr data fp] by simp
next
  case (Inr d0)
  show ?thesis
  proof (cases "fst (os_Chdir (folder gr) w)")
    case (Some e)
    then show ?thesis using d AddData_early(2) [OF Inr Some, of run data fp] by simp
  next
    case None
    show ?thesis
    proof (cases "log gr")
      case nil: None
      then show ?thesis using d AddData_early(3) [OF Inr None nil, of run data fp] by simp
    next
      case (Some entry)
      obtain e3 w3 where p: "prepared data fp (snd (os_Chdir (folder gr) w)) = (e3, w3)"
        by (cases "prepared data fp (snd (os_Chdir (folder gr) w))") auto
      have w3: "isDir (fs w3) q" using prepared_keeps [OF d, where gr = gr and data = data and fp = fp] p by simp
      show ?thesis
      proof (cases e3)
        case failed: (Some e)
        then show ?thesis
          unfolding AddData_prepared [OF Inr None Some] p using w3 by simp
      next
        case ok: None
        obtain r4 w4 where a: "CombinedOutput run [''git'', ''add'', fp] w3 = (r4, w4)"
          by (cases "CombinedOutput run [''git'', ''add'', fp] w3") auto
        have "isDir (fs (snd (CombinedOutput run [''git'', ''add'', fp] w3))) q"
          using k w3 by (intro CombinedOutput_keeps) simp_all
        then have w4: "isDir (fs w4) q" using a by simp
        obtain r5 w5 where c: "CombinedOutput run
            [''git'', ''commit'', ''-m'', ''Add '' @ snd (filepath_Split fp), fp] w4 = (r5, w5)"
          by (cases "CombinedOutput run
            [''git'', ''commit'', ''-m'', ''Add '' @ snd (filepath_Split fp), fp] w4") auto
        have "isDir (fs (snd (CombinedOutput run
            [''git'', ''commit'', ''-m'', ''Add '' @ snd (filepath_Split fp), fp] w4))) q"
          using k w4 by (intro CombinedOutput_keeps) simp_all
        then have w5: "isDir (fs w5) q" using c by simp
        show ?thesis
          unfolding AddData_prepared [OF Inr None Some] p
          using ok a c w4 w5 by (simp add: case_prod_beta)
      qed
    qed
  qed
qed

lemma restored:
  assumes "properPath (cwd w)" and "os_Getwd w = Inr d"
    and "isDir (fs (snd (deferred_Chdir d r))) (cwd w)"
  shows "cwd (snd (deferred_Chdir d r)) = cwd w"
  using Getwd_Inr [OF assms(2)] deferred_restores [OF assms(1), of r] assms(3) by simp



section \<open>The folder of a handle\<close>

lemma Clean_rooted: "IsAbs p \<Longrightarrow> IsAbs (path_Clean p)"
  by (cases p) (simp_all add: path_Clean_def Let_def)

lemma render_rooted: "IsAbs (render p)"
  by (cases p) (simp_all add: render_def)

lemma Join_rooted: "IsAbs a \<Longrightarrow> IsAbs (path_Join [a, b])"
proof -
  assume a: "IsAbs a"
  then obtain t where "a = CHR ''/'' # t" by (cases a) auto
  then have "IsAbs (strings_Join (filter (\<lambda>e. e \<noteq> []) [a, b]) ''/'')"
    by (simp add: strings_Join_def)
  then show ?thesis
    using a by (auto simp: path_Join_def Let_def Clean_rooted)
qed

lemma Abs_rooted: "filepath_Abs w p = (q, None) \<Longrightarrow> IsAbs q"
  by (auto simp: filepath_Abs_def os_Getwd_def Clean_rooted Join_rooted render_rooted
      split: if_splits)

lemma New_absolute: "fst (New url opt w) = Returned (gr, None) \<Longrightarrow> IsAbs (folder gr)"
  by (auto simp: New_def Let_def WithFields_def SetLevel_def logrus_New_def Abs_rooted
      split: outcome.splits prod.splits option.splits if_splits)

section \<open>The theorems at concrete inputs\<close>

lemmas worlds = freshWorld_def clonedWorld_def lockedWorld_def fileWorld_def workWorld_def
  homeFiles_def projectHandle_def lockedHandle_def stub_def cloneStub_def removingStub_def
  stagedStub_def unstagedOutput_def offlineOutput_def committedOutput_def originOutput_def

lemmas paths = lookup_def stat_def lookupParent_def components_def enter_def render_def
  IsAbs_def HasPrefix_def node_at_def isDir_def

lemmas calls = os_Getwd_def os_Chdir_def deferred_Chdir_def Info_def CombinedOutput_def
  bytes_Contains_def

lemmas adding = AddData_def filepath_Split_def os_MkdirAll.simps os_Mkdir_def os_Stat_def
  os_Lstat_def ioutil_WriteFile_def Let_def

lemma getwd_cloned: "os_Getwd clonedWorld = Inr ''/home/u''"
  by (simp add: os_Getwd_def worlds paths)

lemma getwd_fresh: "os_Getwd freshWorld = Inr ''/home/u''"
  by (simp add: os_Getwd_def worlds paths)

lemma chdir_cloned:
  "os_Chdir (folder projectHandle) clonedWorld
     = (None, clonedWorld\<lparr>cwd := [''home'', ''u'', ''project'']\<rparr>)"
  by (simp add: os_Chdir_def worlds paths)

lemma chdir_fresh:
  "os_Chdir (folder projectHandle) freshWorld
     = (None, freshWorld\<lparr>cwd := [''home'', ''u'', ''project'']\<rparr>)"
  by (simp add: os_Chdir_def worlds paths)

lemma chdir_file:
  "os_Chdir (folder projectHandle) fileWorld
     = (None, fileWorld\<lparr>cwd := [''home'', ''u'', ''project'']\<rparr>)"
  by (simp add: os_Chdir_def worlds paths)

lemma entered_cloned: "fst (os_Chdir (folder projectHandle) clonedWorld) = None"
  by (simp add: chdir_cloned)

lemma entered_fresh: "fst (os_Chdir (folder projectHandle) freshWorld) = None"
  by (simp add: chdir_fresh)

lemma log_project: "log projectHandle = Some \<lparr>Data = [(''source'', ''gogit'')]\<rparr>"
  by (simp add: worlds)

lemma abs_project: "IsAbs (folder projectHandle)"
  by (simp add: worlds)

lemma join_git: "path_Join [''/home/u/project'', ''.git''] = ''/home/u/project/.git''"
  by code_simp

text \<open>
  A pull that ends with a non-zero exit status and prints no \<open>"fatal"\<close>, in
  a cloned folder: the theorem applies there.
\<close>

theorem Update_result_witness:
  "os_Getwd clonedWorld = Inr ''/home/u''
   \<and> fst (os_Chdir (folder projectHandle) clonedWorld) = None
   \<and> log projectHandle = Some \<lparr>Data = [(''source'', ''gogit'')]\<rparr>
   \<and> (\<exists>c. invoked (snd (Update (stub unstagedOutput (Some (ExitError 128))) projectHandle clonedWorld))
              = invoked clonedWorld @ [c]
          \<and> (argv c ! 1 = ''clone'' \<or> argv c ! 1 = ''pull'')
          \<and> (combined c, failure c)
              = fst (stub unstagedOutput (Some (ExitError 128)) (argv c) (wd c) (files c))
          \<and> fst (Update (stub unstagedOutput (Some (ExitError 128))) projectHandle clonedWorld) =
               Returned (if bytes_Contains (combined c) ''fatal''
                         then Some (ErrorString (''Could not '' @ argv c ! 1 @ '' repo''))
                         else failure c))"
  using Update_result [OF getwd_cloned entered_cloned log_project,
      of "stub unstagedOutput (Some (ExitError 128))"]
    getwd_cloned entered_cloned log_project
  by simp

text \<open>
  C1 as stated fails: the output of the pull has no \<open>"fatal"\<close>, and
  \<open>Update\<close> returns the exit error of the subprocess.
\<close>

theorem Update_exit_status_counterexample:
  "\<not> bytes_Contains unstagedOutput ''fatal''
   \<and> map argv (invoked (snd (Update (stub unstagedOutput (Some (ExitError 128)))
                                    projectHandle clonedWorld)))
       = [[''git'', ''pull'', ''--rebase'', ''origin'', ''master'']]
   \<and> map combined (invoked (snd (Update (stub unstagedOutput (Some (ExitError 128)))
                                       projectHandle clonedWorld))) = [unstagedOutput]
   \<and> fst (Update (stub unstagedOutput (Some (ExitError 128))) projectHandle clonedWorld)
       = Returned (Some (ExitError 128))"
  by (simp add: Update_def calls exists_def os_Stat_def join_git worlds paths)

text \<open>
  C2 as stated fails for \<open>push\<close>: the output has no \<open>"error"\<close>,
  and \<open>Push\<close> returns the exit error of the subprocess.
\<close>

theorem Push_exit_status_counterexample:
  "\<not> bytes_Contains offlineOutput ''error''
   \<and> map combined (invoked (snd (Push (stub offlineOutput (Some (ExitError 128)))
                                     projectHandle clonedWorld))) = [offlineOutput]
   \<and> fst (Push (stub offlineOutput (Some (ExitError 128))) projectHandle clonedWorld)
       = Returned (Some (ExitError 128))"
  by (simp add: Push_def calls worlds paths)

text \<open>
  \<open>Update\<close> in the empty folder clones, and in the cloned folder pulls.
\<close>

theorem Update_clone_or_pull_witness:
  "os_Getwd freshWorld = Inr ''/home/u''
   \<and> fst (os_Chdir (folder projectHandle) freshWorld) = None
   \<and> os_Getwd clonedWorld = Inr ''/home/u''
   \<and> fst (os_Chdir (folder projectHandle) clonedWorld) = None
   \<and> log projectHandle = Some \<lparr>Data = [(''source'', ''gogit'')]\<rparr>
   \<and> IsAbs (folder projectHandle)
   \<and> (\<exists>c. invoked (snd (Update cloneStub projectHandle freshWorld)) = invoked freshWorld @ [c]
          \<and> wd c = [''home'', ''u'', ''project'']
          \<and> argv c = [''git'', ''clone'', ''https://host/group/project.git'', ''.''])
   \<and> (\<exists>c. invoked (snd (Update cloneStub projectHandle clonedWorld)) = invoked clonedWorld @ [c]
          \<and> wd c = [''home'', ''u'', ''project'']
          \<and> argv c = [''git'', ''pull'', ''--rebase'', ''origin'', ''master''])"
proof -
  have fresh: "\<exists>c. invoked (snd (Update cloneStub projectHandle freshWorld)) = invoked freshWorld @ [c]
          \<and> wd c = [''home'', ''u'', ''project'']
          \<and> argv c = [''git'', ''clone'', ''https://host/group/project.git'', ''.'']"
    using Update_clone_or_pull [OF getwd_fresh entered_fresh log_project abs_project, of cloneStub]
    by (simp add: chdir_fresh) (simp add: worlds)
  have cloned: "\<exists>c. invoked (snd (Update cloneStub projectHandle clonedWorld)) = invoked clonedWorld @ [c]
          \<and> wd c = [''home'', ''u'', ''project'']
          \<and> argv c = [''git'', ''pull'', ''--rebase'', ''origin'', ''master'']"
    using Update_clone_or_pull [OF getwd_cloned entered_cloned log_project abs_project, of cloneStub]
    by (simp add: chdir_cloned) (simp add: worlds)
  show ?thesis
    using getwd_fresh entered_fresh getwd_cloned entered_cloned log_project abs_project fresh cloned
    by (intro conjI)
qed

text \<open>
  A push whose output contains \<open>"error"\<close>.
\<close>

theorem Push_origin_master_witness:
  "os_Getwd clonedWorld = Inr ''/home/u''
   \<and> fst (os_Chdir (folder projectHandle) clonedWorld) = None
   \<and> log projectHandle = Some \<lparr>Data = [(''source'', ''gogit'')]\<rparr>
   \<and> (\<exists>c. invoked (snd (Push (stub unstagedOutput (Some (ExitError 1))) projectHandle clonedWorld))
              = invoked clonedWorld @ [c]
          \<and> argv c = [''git'', ''push'', ''origin'', ''master'']
          \<and> wd c = [''home'', ''u'', ''project'']
          \<and> (combined c, failure c) = (unstagedOutput, Some (ExitError 1))
          \<and> bytes_Contains (combined c) ''error''
          \<and> fst (Push (stub unstagedOutput (Some (ExitError 1))) projectHandle clonedWorld)
               = Returned (Some (ErrorString unstagedOutput)))"
proof -
  have e: "bytes_Contains unstagedOutput ''error''"
    by (simp add: bytes_Contains_def worlds paths)
  from Push_origin_master [OF getwd_cloned entered_cloned log_project,
      of "stub unstagedOutput (Some (ExitError 1))"]
  obtain c where c:
    "invoked (snd (Push (stub unstagedOutput (Some (ExitError 1))) projectHandle clonedWorld))
       = invoked clonedWorld @ [c]"
    "argv c = [''git'', ''push'', ''origin'', ''master'']"
    "wd c = cwd (snd (os_Chdir (folder projectHandle) clonedWorld))"
    "(combined c, failure c)
       = fst (stub unstagedOutput (Some (ExitError 1)) (argv c) (wd c) (files c))"
    "bytes_Contains (combined c) ''error'' \<longrightarrow>
       fst (Push (stub unstagedOutput (Some (ExitError 1))) projectHandle clonedWorld)
         = Returned (Some (ErrorString (combined c)))"
    by (elim exE conjE)
  have w: "wd c = [''home'', ''u'', ''project'']" using c(3) by (simp add: chdir_cloned)
  have o: "(combined c, failure c) = (unstagedOutput, Some (ExitError 1))"
    using c(4) by (simp add: stub_def)
  then have "combined c = unstagedOutput" by simp
  with e c(5) have r: "bytes_Contains (combined c) ''error''"
    "fst (Push (stub unstagedOutput (Some (ExitError 1))) projectHandle clonedWorld)
       = Returned (Some (ErrorString unstagedOutput))"
    by simp_all
  have "\<exists>c. invoked (snd (Push (stub unstagedOutput (Some (ExitError 1))) projectHandle clonedWorld))
              = invoked clonedWorld @ [c]
          \<and> argv c = [''git'', ''push'', ''origin'', ''master'']
          \<and> wd c = [''home'', ''u'', ''project'']
          \<and> (combined c, failure c) = (unstagedOutput, Some (ExitError 1))
          \<and> bytes_Contains (combined c) ''error''
          \<and> fst (Push (stub unstagedOutput (Some (ExitError 1))) projectHandle clonedWorld)
               = Returned (Some (ErrorString unstagedOutput))"
    using c(1,2) w o r by (intro exI [of _ c] conjI)
  with getwd_cloned entered_cloned log_project show ?thesis by (intro conjI)
qed

lemma staged_trace:
  "invoked (snd (AddData stagedStub projectHandle ''hello'' ''sub/dir/notes.txt'' clonedWorld))
     = invoked clonedWorld @
        \<lparr>argv = [''git'', ''add'', ''sub/dir/notes.txt''], wd = [''home'', ''u'', ''project''],
          files = (fs clonedWorld)
            ([''home'', ''u'', ''project'', ''sub''] \<mapsto> Dir,
             [''home'', ''u'', ''project'', ''sub'', ''dir''] \<mapsto> Dir,
             [''home'', ''u'', ''project'', ''sub'', ''dir'', ''notes.txt''] \<mapsto> File ''hello''),
          combined = [], failure = Some (ExitError 1)\<rparr>
        # [\<lparr>argv = [''git'', ''commit'', ''-m'', ''Add notes.txt'', ''sub/dir/notes.txt''],
            wd = [''home'', ''u'', ''project''],
            files = (fs clonedWorld)
              ([''home'', ''u'', ''project'', ''sub''] \<mapsto> Dir,
               [''home'', ''u'', ''project'', ''sub'', ''dir''] \<mapsto> Dir,
               [''home'', ''u'', ''project'', ''sub'', ''dir'', ''notes.txt''] \<mapsto> File ''hello''),
            combined = committedOutput, failure = Some (ExitError 2)\<rparr>]"
  by (simp add: adding calls worlds paths)


lemma offline_trace:
  "invoked (snd (Push (stub offlineOutput (Some (ExitError 128))) projectHandle clonedWorld))
     = invoked clonedWorld @
        [\<lparr>argv = [''git'', ''push'', ''origin'', ''master''], wd = [''home'', ''u'', ''project''],
          files = fs clonedWorld, combined = offlineOutput, failure = Some (ExitError 128)\<rparr>]"
  by (simp add: Push_def calls worlds paths)

lemma plain_trace:
  "invoked (snd (AddData stagedStub projectHandle ''hello'' ''notes.txt'' clonedWorld))
     = invoked clonedWorld @
        [\<lparr>argv = [''git'', ''add'', ''notes.txt''], wd = [''home'', ''u'', ''project''],
          files = (fs clonedWorld)([''home'', ''u'', ''project'', ''notes.txt''] \<mapsto> File ''hello''),
          combined = [], failure = Some (ExitError 1)\<rparr>,
         \<lparr>argv = [''git'', ''commit'', ''-m'', ''Add notes.txt'', ''notes.txt''],
            wd = [''home'', ''u'', ''project''],
            files = (fs clonedWorld)([''home'', ''u'', ''project'', ''notes.txt''] \<mapsto> File ''hello''),
            combined = committedOutput, failure = Some (ExitError 2)\<rparr>]"
  by (simp add: adding calls worlds paths)

text \<open>
  A push and an \<open>AddData\<close> whose subprocesses end with a non-zero exit
  status and print no \<open>"error"\<close>.
\<close>

theorem invocation_error_returned_witness:
  "invoked (snd (Push (stub offlineOutput (Some (ExitError 128))) projectHandle clonedWorld))
     = invoked clonedWorld @
        [\<lparr>argv = [''git'', ''push'', ''origin'', ''master''], wd = [''home'', ''u'', ''project''],
          files = fs clonedWorld, combined = offlineOutput, failure = Some (ExitError 128)\<rparr>]
   \<and> fst (Push (stub offlineOutput (Some (ExitError 128))) projectHandle clonedWorld)
       = Returned (Some (ExitError 128))
   \<and> invoked (snd (AddData stagedStub projectHandle ''hello'' ''notes.txt'' clonedWorld))
     = invoked clonedWorld @
        [\<lparr>argv = [''git'', ''add'', ''notes.txt''], wd = [''home'', ''u'', ''project''],
          files = (fs clonedWorld)([''home'', ''u'', ''project'', ''notes.txt''] \<mapsto> File ''hello''),
          combined = [], failure = Some (ExitError 1)\<rparr>,
         \<lparr>argv = [''git'', ''commit'', ''-m'', ''Add notes.txt'', ''notes.txt''],
            wd = [''home'', ''u'', ''project''],
            files = (fs clonedWorld)([''home'', ''u'', ''project'', ''notes.txt''] \<mapsto> File ''hello''),
            combined = committedOutput, failure = Some (ExitError 2)\<rparr>]
   \<and> fst (AddData stagedStub projectHandle ''hello'' ''notes.txt'' clonedWorld)
       = Returned (Some (ExitError 1))"
proof -
  note pushed = invocation_error_returned
    [where run = "stub offlineOutput (Some (ExitError 128))" and gr = projectHandle
       and w = clonedWorld, THEN conjunct1, THEN mp, OF offline_trace]
  note added = invocation_error_returned
    [where run = stagedStub and gr = projectHandle and w = clonedWorld
       and data = "''hello''" and fp = "''notes.txt''", THEN conjunct2, THEN mp, OF plain_trace]
  have p: "fst (Push (stub offlineOutput (Some (ExitError 128))) projectHandle clonedWorld)
       = Returned (Some (ExitError 128))"
    using pushed
    by (simp add: bytes_Contains_def worlds paths)
  have a: "fst (AddData stagedStub projectHandle ''hello'' ''notes.txt'' clonedWorld)
       = Returned (Some (ExitError 1))"
    using added
    by (simp add: bytes_Contains_def worlds paths)
  show ?thesis using offline_trace p plain_trace a by (intro conjI)
qed

lemma keeps_home:
  "isDir f (cwd freshWorld) \<Longrightarrow> isDir (snd (cloneStub args d f)) (cwd freshWorld)"
  by (erule isDir_mono) (simp add: cloneStub_def)



lemma trim_origin: "trimWhitespace originOutput = ''https://host/group/project.git''"
  by code_simp

lemma chdir_missing:
  "os_Chdir ''/home/u/missing/../project'' clonedWorld
     = (Some (PathError ''chdir'' ''/home/u/missing/../project'' ENOENT), clonedWorld)"
  by (simp add: os_Chdir_def worlds paths)

lemma chdir_nowhere:
  "os_Chdir ''/nowhere'' clonedWorld = (Some (PathError ''chdir'' ''/nowhere'' ENOENT), clonedWorld)"
  by (simp add: os_Chdir_def worlds paths)

lemma chdir_folder:
  "os_Chdir ''/home/u/project'' clonedWorld
     = (None, clonedWorld\<lparr>cwd := [''home'', ''u'', ''project'']\<rparr>)"
  by (simp add: os_Chdir_def worlds paths)

text \<open>
  \<open>GetRemoteOriginURL\<close> in the cloned folder, where git prints the URL and a line
  feed; in a folder that does not exist; and with a path name that goes through a
  missing directory and back: there \<open>os.Chdir\<close> fails and no subprocess runs.
\<close>

theorem GetRemoteOriginURL_result_witness:
  "(\<exists>c. invoked (snd (GetRemoteOriginURL (stub originOutput None) ''/home/u/project'' clonedWorld))
            = invoked clonedWorld @ [c]
        \<and> argv c = [''git'', ''config'', ''--get'', ''remote.origin.url'']
        \<and> wd c = [''home'', ''u'', ''project'']
        \<and> (combined c, failure c) = (''https://host/group/project.git'' @ [CHR 0x0A], None)
        \<and> fst (GetRemoteOriginURL (stub originOutput None) ''/home/u/project'' clonedWorld)
            = (''https://host/group/project.git'', None))
   \<and> fst (GetRemoteOriginURL (stub originOutput None) ''/nowhere'' clonedWorld)
       = ([], Some (PathError ''chdir'' ''/nowhere'' ENOENT))
   \<and> fst (GetRemoteOriginURL (stub originOutput None) ''/home/u/missing/../project'' clonedWorld)
       = ([], Some (PathError ''chdir'' ''/home/u/missing/../project'' ENOENT))
   \<and> invoked (snd (GetRemoteOriginURL (stub originOutput None) ''/home/u/missing/../project''
                      clonedWorld)) = invoked clonedWorld"
proof -
  have o: "originOutput = ''https://host/group/project.git'' @ [CHR 0x0A]"
    by (simp add: originOutput_def)
  have a: "\<exists>c. invoked (snd (GetRemoteOriginURL (stub originOutput None) ''/home/u/project'' clonedWorld))
            = invoked clonedWorld @ [c]
        \<and> argv c = [''git'', ''config'', ''--get'', ''remote.origin.url'']
        \<and> wd c = [''home'', ''u'', ''project'']
        \<and> (combined c, failure c) = (''https://host/group/project.git'' @ [CHR 0x0A], None)
        \<and> fst (GetRemoteOriginURL (stub originOutput None) ''/home/u/project'' clonedWorld)
            = (''https://host/group/project.git'', None)"
    using GetRemoteOriginURL_result [where w = clonedWorld and run = "stub originOutput None"
        and repoFolder = "''/home/u/project''"] trim_origin
    by (simp add: getwd_cloned chdir_folder stub_def) (auto simp: o)
  have b: "fst (GetRemoteOriginURL (stub originOutput None) ''/nowhere'' clonedWorld)
       = ([], Some (PathError ''chdir'' ''/nowhere'' ENOENT))"
    using GetRemoteOriginURL_result [where w = clonedWorld and run = "stub originOutput None"
        and repoFolder = "''/nowhere''"]
    by (simp add: getwd_cloned chdir_nowhere)
  have c: "fst (GetRemoteOriginURL (stub originOutput None) ''/home/u/missing/../project'' clonedWorld)
       = ([], Some (PathError ''chdir'' ''/home/u/missing/../project'' ENOENT))
   \<and> invoked (snd (GetRemoteOriginURL (stub originOutput None) ''/home/u/missing/../project''
                      clonedWorld)) = invoked clonedWorld"
    using GetRemoteOriginURL_result [where w = clonedWorld and run = "stub originOutput None"
        and repoFolder = "''/home/u/missing/../project''"]
    by (simp add: getwd_cloned chdir_missing)
  from a b c show ?thesis by (intro conjI) simp_all
qed

lemma Split_unique:
  assumes "fp = dir @ name" "CHR ''/'' \<notin> set name" "dir = [] \<or> last dir = CHR ''/''"
  shows "filepath_Split fp = (dir, name)"
proof -
  obtain d n where s: "filepath_Split fp = (d, n)" by (cases "filepath_Split fp") auto
  from Split_parts [OF s] have p: "fp = d @ n" "CHR ''/'' \<notin> set n" "d = [] \<or> last d = CHR ''/''"
    by simp_all
  have less: False
    if "a @ x = b @ y" "length a < length b" "CHR ''/'' \<notin> set x" "b = [] \<or> last b = CHR ''/''"
    for a x b y :: string
  proof -
    from that(1,2) obtain z where z: "b = a @ z" "x = z @ y" "z \<noteq> []"
      by (auto simp: append_eq_append_conv2)
    then have "last b = last z" by simp
    moreover have "last z \<in> set x" using z(2,3) by simp
    ultimately show False using that(3,4) z(1,3) by auto
  qed
  have "length dir = length d"
  proof (rule ccontr)
    assume "length dir \<noteq> length d"
    then consider "length dir < length d" | "length d < length dir" by linarith
    then show False
    proof cases
      case 1
      then show ?thesis using less [of dir name d n] assms p by simp
    next
      case 2
      then show ?thesis using less [of d n dir name] assms p by simp
    qed
  qed
  then have "dir = d \<and> name = n" using assms(1) p(1) by simp
  with s show ?thesis by simp
qed

lemma refused_trace:
  "invoked (snd (AddData (stub unstagedOutput (Some (ExitError 128))) projectHandle ''hello''
                   ''sub/dir/notes.txt'' clonedWorld))
     = [\<lparr>argv = [''git'', ''add'', ''sub/dir/notes.txt''], wd = [''home'', ''u'', ''project''],
          files = (fs clonedWorld)
            ([''home'', ''u'', ''project'', ''sub''] \<mapsto> Dir,
             [''home'', ''u'', ''project'', ''sub'', ''dir''] \<mapsto> Dir,
             [''home'', ''u'', ''project'', ''sub'', ''dir'', ''notes.txt''] \<mapsto> File ''hello''),
          combined = unstagedOutput, failure = Some (ExitError 128)\<rparr>]"
  by (simp add: adding calls worlds paths)

lemma not_prepared:
  "fst (prepared ''hello'' ''a/../notes.txt'' (snd (os_Chdir (folder projectHandle) fileWorld)))
     = Some (PathError ''mkdir'' ''a'' ENOTDIR)"
  unfolding chdir_file by (simp add: prepared_def adding worlds paths)


lemma parse_locked: "ParseRepoFolder ''https://host/group/locked.git'' = Returned ''locked''"
  by code_simp

lemma parse_project: "ParseRepoFolder ''https://host/group/project.git'' = Returned ''project''"
  by code_simp

lemma join_locked: "path_Join [''/home/u'', ''locked''] = ''/home/u/locked''"
  by code_simp

lemma join_project: "path_Join [''/home/u'', ''project''] = ''/home/u/project''"
  by code_simp

lemmas making = New_def filepath_Abs_def exists_def os_Stat_def os_Lstat_def os_MkdirAll.simps
  os_Mkdir_def os_Getwd_def WithFields_def SetLevel_def logrus_New_def Let_def

lemma New_locked:
  "fst (New ''https://host/group/locked.git'' [] lockedWorld)
     = Returned (lockedHandle, Some (PathError ''mkdir'' ''/home/u/locked'' EACCES))"
  by (simp add: making parse_locked join_locked worlds paths)

lemma New_project:
  "fst (New ''https://host/group/project.git'' [] freshWorld) = Returned (projectHandle, None)"
  by (simp add: making parse_project join_project worlds paths)

text \<open>
  C10 as stated fails: \<open>New\<close> cannot make the folder and returns a handle
  with a nil logger, and \<open>Update\<close>, \<open>Push\<close> and
  \<open>AddData\<close> on that handle return the error of \<open>os.Chdir\<close>;
  none of them panics.
\<close>

theorem nil_logger_counterexample:
  "fst (New ''https://host/group/locked.git'' [] lockedWorld)
     = Returned (lockedHandle, Some (PathError ''mkdir'' ''/home/u/locked'' EACCES))
   \<and> logger lockedHandle = None
   \<and> fst (Update (stub [] None) lockedHandle (snd (New ''https://host/group/locked.git'' [] lockedWorld)))
       = Returned (Some (PathError ''chdir'' ''/home/u/locked'' ENOENT))
   \<and> fst (Push (stub [] None) lockedHandle (snd (New ''https://host/group/locked.git'' [] lockedWorld)))
       = Returned (Some (PathError ''chdir'' ''/home/u/locked'' ENOENT))
   \<and> fst (AddData (stub [] None) lockedHandle ''hello'' ''notes.txt''
            (snd (New ''https://host/group/locked.git'' [] lockedWorld)))
       = Returned (Some (PathError ''chdir'' ''/home/u/locked'' ENOENT))"
proof -
  have w: "snd (New ''https://host/group/locked.git'' [] lockedWorld) = lockedWorld"
    by (simp add: making parse_locked join_locked worlds paths)
  have n: "logger lockedHandle = None" by (simp add: worlds)
  have u: "fst (Update (stub [] None) lockedHandle lockedWorld)
       = Returned (Some (PathError ''chdir'' ''/home/u/locked'' ENOENT))"
    by (simp add: Update_def calls worlds paths)
  have p: "fst (Push (stub [] None) lockedHandle lockedWorld)
       = Returned (Some (PathError ''chdir'' ''/home/u/locked'' ENOENT))"
    by (simp add: Push_def calls worlds paths)
  have a: "fst (AddData (stub [] None) lockedHandle ''hello'' ''notes.txt'' lockedWorld)
       = Returned (Some (PathError ''chdir'' ''/home/u/locked'' ENOENT))"
    by (simp add: AddData_def calls worlds paths)
  show ?thesis
    unfolding w using New_locked n u p a by (intro conjI)
qed

text \<open>
  \<open>New\<close> where the folder cannot be made and where it can;
  \<open>Debug\<close> and the operations on the handle of the failed
  \<open>New\<close>, before and after somebody else has made the folder.
\<close>

theorem nil_logger_witness:
  "fst (New ''https://host/group/locked.git'' [] lockedWorld)
     = Returned (lockedHandle, Some (PathError ''mkdir'' ''/home/u/locked'' EACCES))
   \<and> logger lockedHandle = None \<and> log lockedHandle = None
   \<and> fst (New ''https://host/group/project.git'' [] freshWorld) = Returned (projectHandle, None)
   \<and> logger projectHandle \<noteq> None \<and> log projectHandle \<noteq> None
   \<and> Debug True lockedHandle = Panicked NilDereference
   \<and> fst (Update (stub [] None) lockedHandle lockedWorld)
       = Returned (Some (PathError ''chdir'' ''/home/u/locked'' ENOENT))
   \<and> fst (Update (stub [] None) lockedHandle
            (lockedWorld\<lparr>fs := homeFiles([''home'', ''u'', ''locked''] \<mapsto> Dir)\<rparr>))
       = Panicked NilDereference
   \<and> fst (Push (stub [] None) lockedHandle
            (lockedWorld\<lparr>fs := homeFiles([''home'', ''u'', ''locked''] \<mapsto> Dir)\<rparr>))
       = Panicked NilDereference
   \<and> fst (AddData (stub [] None) lockedHandle ''hello'' ''notes.txt''
            (lockedWorld\<lparr>fs := homeFiles([''home'', ''u'', ''locked''] \<mapsto> Dir)\<rparr>))
       = Panicked NilDereference"
proof -
  note failed = nil_logger [where url = "''https://host/group/locked.git''" and opt = "[]"
      and w = lockedWorld and gr = lockedHandle
      and e = "PathError ''mkdir'' ''/home/u/locked'' EACCES" and on = True
      and run = "stub [] None" and data = "''hello''" and fp = "''notes.txt''"]
  note made = nil_logger [where url = "''https://host/group/project.git''" and opt = "[]"
      and w = freshWorld and gr = projectHandle]
  note later = nil_logger [where gr = lockedHandle
      and w = "lockedWorld\<lparr>fs := homeFiles([''home'', ''u'', ''locked''] \<mapsto> Dir)\<rparr>"
      and run = "stub [] None" and data = "''hello''" and fp = "''notes.txt''"]
  have nil: "logger lockedHandle = None" "log lockedHandle = None"
    using failed [THEN conjunct1, THEN mp, OF New_locked] by simp_all
  have set: "logger projectHandle \<noteq> None" "log projectHandle \<noteq> None"
    using made [THEN conjunct2, THEN conjunct1, THEN mp, OF New_project] by simp_all
  have dbg: "Debug True lockedHandle = Panicked NilDereference"
    using failed [THEN conjunct2, THEN conjunct2, THEN conjunct1, THEN mp, OF nil(1)] .
  have u: "fst (Update (stub [] None) lockedHandle lockedWorld)
       = Returned (Some (PathError ''chdir'' ''/home/u/locked'' ENOENT))"
    using failed [THEN conjunct2, THEN conjunct2, THEN conjunct2, THEN mp, OF nil(2)]
    by (simp add: calls worlds paths)
  have l: "fst (Update (stub [] None) lockedHandle
            (lockedWorld\<lparr>fs := homeFiles([''home'', ''u'', ''locked''] \<mapsto> Dir)\<rparr>))
       = Panicked NilDereference
   \<and> fst (Push (stub [] None) lockedHandle
            (lockedWorld\<lparr>fs := homeFiles([''home'', ''u'', ''locked''] \<mapsto> Dir)\<rparr>))
       = Panicked NilDereference
   \<and> fst (AddData (stub [] None) lockedHandle ''hello'' ''notes.txt''
            (lockedWorld\<lparr>fs := homeFiles([''home'', ''u'', ''locked''] \<mapsto> Dir)\<rparr>))
       = Panicked NilDereference"
    using later [THEN conjunct2, THEN conjunct2, THEN conjunct2, THEN mp, OF nil(2)]
    by (simp add: calls worlds paths)
  show ?thesis
    using New_locked nil New_project set dbg u l by (intro conjI) simp_all
qed

end
